theory Spec2Isabelle
  imports Main "HOL-Library.Word"
begin

unbundle bit_operations_syntax

section \<open>Machine types of \<open>nvmeshlet_builder.hpp\<close>\<close>

text \<open>
  \<open>uint32_t\<close> and \<open>uint8_t\<close> (\<open>PrimitiveIndexType\<close>) are words whose arithmetic wraps;
  \<open>size_t\<close> is taken as 64 bits wide. The type \<open>double\<close> is not interpreted: the
  statistics record is polymorphic in it and only its \<open>+\<close> is used.
\<close>

type_synonym uint32_t = "32 word"
type_synonym uint8_t = "8 word"
type_synonym size_t = "64 word"

datatype error = OutOfBounds | AssertionFailed

section \<open>Statistics (\<open>struct Stats\<close>)\<close>

record 'd Stats =
  meshletsTotal :: size_t
  meshletsStored :: size_t
  backfaceTotal :: size_t
  primIndices :: size_t
  primTotal :: size_t
  vertexIndices :: size_t
  vertexTotal :: size_t
  posBitTotal :: size_t
  appended :: size_t
  primloadAvg :: 'd
  primloadVar :: 'd
  vertexloadAvg :: 'd
  vertexloadVar :: 'd

text \<open>The default member initialisers: every field is zero.\<close>

definition Stats_init :: "('d::zero) Stats" where
  "Stats_init = \<lparr> meshletsTotal = 0, meshletsStored = 0, backfaceTotal = 0,
     primIndices = 0, primTotal = 0, vertexIndices = 0, vertexTotal = 0,
     posBitTotal = 0, appended = 0,
     primloadAvg = 0, primloadVar = 0, vertexloadAvg = 0, vertexloadVar = 0 \<rparr>"

text \<open>
  \<open>Stats::append\<close> (named \<open>Stats_append\<close>, since \<open>append\<close> is the list operation of
  HOL), statement by statement in the order of the source. The source has no statement
  for \<open>posBitTotal\<close>.
\<close>

definition Stats_append :: "('d::plus) Stats \<Rightarrow> 'd Stats \<Rightarrow> 'd Stats" where
  "Stats_append s other =
     s\<lparr> meshletsTotal := meshletsTotal s + meshletsTotal other,
        meshletsStored := meshletsStored s + meshletsStored other,
        backfaceTotal := backfaceTotal s + backfaceTotal other,
        primIndices := primIndices s + primIndices other,
        vertexIndices := vertexIndices s + vertexIndices other,
        vertexTotal := vertexTotal s + vertexTotal other,
        primTotal := primTotal s + primTotal other,
        appended := appended s + appended other,
        primloadAvg := primloadAvg s + primloadAvg other,
        primloadVar := primloadVar s + primloadVar other,
        vertexloadAvg := vertexloadAvg s + vertexloadAvg other,
        vertexloadVar := vertexloadVar s + vertexloadVar other \<rparr>"

text \<open>
  \<open>Stats::fprint\<close> returns nothing; what it does is the list of effects it performs,
  in order: each floating-point division with its two operands as they are before the
  conversion to \<open>double\<close>, and the one \<open>fprintf\<close> with its three integer arguments (its
  six floating-point arguments are the quotients).
\<close>

datatype 'd operand = OfDouble 'd | OfSize size_t

datatype 'd effect =
    Divide "'d operand" "'d operand"
  | Fprintf size_t size_t size_t

definition Stats_fprint :: "'d Stats \<Rightarrow> 'd effect list" where
  "Stats_fprint s =
     (if appended s = 0 \<or> meshletsTotal s = 0 then []
      else [ Divide (OfDouble (primloadAvg s)) (OfSize (appended s)),
             Divide (OfDouble (vertexloadAvg s)) (OfSize (appended s)),
             Divide (OfSize (backfaceTotal s)) (OfSize (meshletsTotal s)),
             Divide (OfSize (primIndices s)) (OfSize (primTotal s * 3)),
             Divide (OfSize (vertexIndices s)) (OfSize (vertexTotal s)),
             Divide (OfSize (meshletsStored s)) (OfSize (meshletsTotal s)),
             Fprintf (meshletsTotal s) (primTotal s) (vertexTotal s) ])"

section \<open>Build configuration\<close>

text \<open>
  Two preprocessor symbols select code in the header: \<open>_MSC_VER\<close> chooses the body of
  \<open>findMSB\<close>, and \<open>NDEBUG\<close> removes every \<open>assert\<close>. The third parameter of the model
  is what the target does with a shift of a 32-bit value by 32 or more, which C++ leaves
  undefined: \<open>shift_count_masked\<close> holds when the shift instruction uses the count modulo
  32 (as on x86), and otherwise the result of such a shift is 0 (as on ARM). The fourth,
  \<open>clz_of_zero\<close>, is the value that \<open>__builtin_clz(0)\<close> yields in a run: the compiler
  leaves it undefined, so nothing is known about it, and it need not be the same in two
  runs. It is read only where the source evaluates \<open>__builtin_clz\<close> on zero, which
  between two resets of a cache happens at most once: for the first triangle with the
  vertex index 0, which is held and found from then on.
\<close>

record build =
  msc_ver :: bool
  ndebug :: bool
  shift_count_masked :: bool
  clz_of_zero :: uint32_t

text \<open>
  The two builds used in the examples: GCC or Clang, and MSVC, both with assertions, for
  x86. No example evaluates \<open>__builtin_clz\<close> on zero, so the value given for it there is
  immaterial.
\<close>

abbreviation gnu_build :: build where
  "gnu_build \<equiv>
     \<lparr>msc_ver = False, ndebug = False, shift_count_masked = True, clz_of_zero = 31\<rparr>"

abbreviation msc_build :: build where
  "msc_build \<equiv>
     \<lparr>msc_ver = True, ndebug = False, shift_count_masked = True, clz_of_zero = 31\<rparr>"

section \<open>Bit-field codec (\<open>setBitField\<close>, \<open>getBitField\<close>)\<close>

text \<open>
  The C++ shifts \<open>x << n\<close> and \<open>x >> n\<close> on \<open>uint32_t\<close>. For \<open>n < 32\<close> they are
  \<open>push_bit\<close> and \<open>drop_bit\<close>; for larger counts they follow the build. The codec also
  computes its masks as \<open>(1 << n) - 1\<close> in \<open>int\<close> and converts them to \<open>uint32_t\<close>; the
  model computes them modulo \<open>2 ^ 32\<close>, which is the same for two's complement.
\<close>

definition shl :: "build \<Rightarrow> uint32_t \<Rightarrow> uint32_t \<Rightarrow> uint32_t" where
  "shl bld x n =
     (if unat n < 32 then push_bit (unat n) x
      else if shift_count_masked bld then push_bit (unat n mod 32) x
      else 0)"

definition shr :: "build \<Rightarrow> uint32_t \<Rightarrow> uint32_t \<Rightarrow> uint32_t" where
  "shr bld x n =
     (if unat n < 32 then drop_bit (unat n) x
      else if shift_count_masked bld then drop_bit (unat n mod 32) x
      else 0)"

text \<open>
  The word array is a list; \<open>arraySize\<close> is passed separately, as in the source. An
  access at an index that is not in the list is \<open>OutOfBounds\<close>; the failing
  \<open>assert(idx < arraySize)\<close> is \<open>AssertionFailed\<close> unless \<open>NDEBUG\<close> is defined.
\<close>

definition setBitField ::
  "build \<Rightarrow> uint32_t \<Rightarrow> uint32_t list \<Rightarrow> uint32_t \<Rightarrow> uint32_t \<Rightarrow> uint32_t \<Rightarrow> error + uint32_t list" where
  "setBitField bld arraySize bits width offset val =
     (let idx = offset div 32;
          shiftLo = offset mod 32
      in if \<not> ndebug bld \<and> \<not> idx < arraySize then Inl AssertionFailed
         else
           let onlyLo = (shiftLo + width \<le> 32);
               sizeLo = (if onlyLo then width else 32 - shiftLo);
               sizeHi = (if onlyLo then 0 else shiftLo + width - 32);
               shiftHi = sizeLo;
               retLo = shl bld val shiftLo;
               retHi = shr bld val shiftHi
           in if \<not> unat idx < length bits then Inl OutOfBounds
              else
                let bits1 = bits[unat idx := (bits ! unat idx) OR retLo]
                in if idx + 1 < arraySize
                   then (if \<not> unat (idx + 1) < length bits1 then Inl OutOfBounds
                         else Inr (bits1[unat (idx + 1) := (bits1 ! unat (idx + 1)) OR retHi]))
                   else Inr bits1)"

definition getBitField ::
  "build \<Rightarrow> uint32_t \<Rightarrow> uint32_t list \<Rightarrow> uint32_t \<Rightarrow> uint32_t \<Rightarrow> error + uint32_t" where
  "getBitField bld arraySize bits width offset =
     (let idx = offset div 32
      in if \<not> unat idx < length bits then Inl OutOfBounds
         else if idx + 1 < arraySize \<and> \<not> unat (idx + 1) < length bits then Inl OutOfBounds
         else
           let rawLo = bits ! unat idx;
               rawHi = (if idx + 1 < arraySize then bits ! unat (idx + 1) else 0);
               shiftLo = offset mod 32;
               onlyLo = (shiftLo + width \<le> 32);
               sizeLo = (if onlyLo then width else 32 - shiftLo);
               sizeHi = (if onlyLo then 0 else shiftLo + width - 32);
               shiftHi = sizeLo;
               maskLo = (if width = 32 then NOT 0 else shl bld 1 sizeLo - 1);
               maskU = shl bld 1 sizeHi - 1;
               retLo = (shr bld rawLo shiftLo) AND maskLo;
               retHi = shl bld (rawHi AND maskU) shiftHi
           in Inr (retLo OR retHi))"

section \<open>\<open>findMSB\<close>\<close>

text \<open>
  The source has two bodies for \<open>findMSB\<close>: with \<open>_MSC_VER\<close> defined it returns the index
  stored by \<open>_BitScanReverse\<close> into a variable initialised to 0, otherwise it returns
  \<open>__builtin_clz(value)\<close> as it is.

  The two compiler intrinsics are not code of the repository; they are modelled from the
  compilers' documentation. \<open>_BitScanReverse(&idx, value)\<close> stores in \<open>idx\<close> the position of the
  most-significant set bit of \<open>value\<close> and leaves \<open>idx\<close> as it is when \<open>value\<close> is zero.
  \<open>__builtin_clz(value)\<close> is the number of leading zero bits of a non-zero \<open>value\<close>; its
  result for zero is undefined, and the model takes it from \<open>clz_of_zero\<close> without
  assuming anything about it.

  \<open>cannotInsertBlock\<close> and the delta width of \<open>insert\<close> call \<open>findMSB\<close> on a value with bit 0
  set; \<open>insert\<close> also calls \<open>findMSB(idx)\<close> on the vertex index as it is, which is zero for
  the vertex index 0.
\<close>

fun scanReverse :: "nat \<Rightarrow> uint32_t \<Rightarrow> nat option" where
  "scanReverse 0 x = None"
| "scanReverse (Suc n) x = (if bit x n then Some n else scanReverse n x)"

definition BitScanReverse :: "uint32_t \<Rightarrow> uint32_t \<Rightarrow> uint32_t" where
  "BitScanReverse idx val = (case scanReverse 32 val of None \<Rightarrow> idx | Some p \<Rightarrow> of_nat p)"

definition builtin_clz :: "build \<Rightarrow> uint32_t \<Rightarrow> uint32_t" where
  "builtin_clz bld val =
     (case scanReverse 32 val of None \<Rightarrow> clz_of_zero bld | Some p \<Rightarrow> of_nat (31 - p))"

definition findMSB :: "build \<Rightarrow> uint32_t \<Rightarrow> uint32_t" where
  "findMSB bld val = (if msc_ver bld then BitScanReverse 0 val else builtin_clz bld val)"

section \<open>The primitive cache (\<open>struct PrimitiveCache\<close>)\<close>

definition MAX_VERTEX_COUNT_LIMIT :: nat where
  "MAX_VERTEX_COUNT_LIMIT = 256"

definition MAX_PRIMITIVE_COUNT_LIMIT :: nat where
  "MAX_PRIMITIVE_COUNT_LIMIT = 256"

text \<open>
  The two arrays are lists: \<open>primitives\<close> holds \<open>MAX_PRIMITIVE_COUNT_LIMIT\<close> rows of three
  \<open>uint8_t\<close>, \<open>vertices\<close> holds \<open>MAX_VERTEX_COUNT_LIMIT\<close> words. A read or write at an
  index outside a list is \<open>OutOfBounds\<close>.
\<close>

record PrimitiveCache =
  primitives :: "uint8_t list list"
  vertices :: "uint32_t list"
  numPrims :: uint32_t
  numVertices :: uint32_t
  numVertexDeltaBits :: uint32_t
  numVertexAllBits :: uint32_t
  maxVertexSize :: uint32_t
  maxPrimitiveSize :: uint32_t
  primitiveBits :: uint32_t
  maxBlockBits :: uint32_t

text \<open>A freshly constructed cache: the default member initialisers.\<close>

definition PrimitiveCache_init :: PrimitiveCache where
  "PrimitiveCache_init =
     \<lparr> primitives = replicate MAX_PRIMITIVE_COUNT_LIMIT [0, 0, 0],
       vertices = replicate MAX_VERTEX_COUNT_LIMIT 0,
       numPrims = 0, numVertices = 0, numVertexDeltaBits = 0, numVertexAllBits = 0,
       maxVertexSize = 0, maxPrimitiveSize = 0, primitiveBits = 1, maxBlockBits = NOT 0 \<rparr>"

text \<open>\<open>memset\<close> with the byte \<open>0xFF\<close> makes every word of \<open>vertices\<close> \<open>0xFFFFFFFF\<close>.\<close>

definition reset :: "PrimitiveCache \<Rightarrow> PrimitiveCache" where
  "reset c = c\<lparr> numPrims := 0, numVertices := 0, numVertexDeltaBits := 0,
                numVertexAllBits := 0,
                vertices := replicate MAX_VERTEX_COUNT_LIMIT 0xFFFFFFFF \<rparr>"

definition fitsBlock :: "PrimitiveCache \<Rightarrow> bool" where
  "fitsBlock c =
     (let primBits = (numPrims c - 1) * 3 * primitiveBits c;
          vertBits = (numVertices c - 1) * numVertexDeltaBits c
      in primBits + vertBits \<le> maxBlockBits c)"

text \<open>
  The counting loops of \<open>cannotInsert\<close> and \<open>cannotInsertBlock\<close>: the outer one runs over
  \<open>vertices[0 .. numVertices)\<close>, the inner one over the three indices; \<open>found\<close> is a
  \<open>uint32_t\<close>.
\<close>

fun countInner :: "uint32_t \<Rightarrow> uint32_t list \<Rightarrow> uint32_t \<Rightarrow> uint32_t" where
  "countInner x [] found = found"
| "countInner x (idx # rest) found = countInner x rest (if x = idx then found + 1 else found)"

fun countOuter :: "uint32_t list \<Rightarrow> uint32_t list \<Rightarrow> uint32_t \<Rightarrow> uint32_t" where
  "countOuter [] indices found = found"
| "countOuter (x # xs) indices found = countOuter xs indices (countInner x indices found)"

definition countFound :: "PrimitiveCache \<Rightarrow> uint32_t list \<Rightarrow> uint32_t" where
  "countFound c indices = countOuter (take (unat (numVertices c)) (vertices c)) indices 0"

definition cannotInsert ::
  "PrimitiveCache \<Rightarrow> uint32_t \<Rightarrow> uint32_t \<Rightarrow> uint32_t \<Rightarrow> error + bool" where
  "cannotInsert c idxA idxB idxC =
     (if idxA = idxB \<or> idxA = idxC \<or> idxB = idxC then Inr False
      else if length (vertices c) < unat (numVertices c) then Inl OutOfBounds
      else
        let found = countFound c [idxA, idxB, idxC]
        in Inr (numVertices c + 3 - found > maxVertexSize c
                \<or> numPrims c + 1 > maxPrimitiveSize c))"

text \<open>The local \<open>cmpBits\<close> of \<open>cannotInsertBlock\<close>, with \<open>firstVertex\<close>.\<close>

definition cmpBits ::
  "build \<Rightarrow> PrimitiveCache \<Rightarrow> uint32_t \<Rightarrow> uint32_t \<Rightarrow> uint32_t \<Rightarrow> uint32_t" where
  "cmpBits bld c idxA idxB idxC =
     (let firstVertex = (if numVertices c \<noteq> 0 then vertices c ! 0 else idxA)
      in max (findMSB bld ((firstVertex XOR idxA) OR 1))
             (max (findMSB bld ((firstVertex XOR idxB) OR 1))
                  (findMSB bld ((firstVertex XOR idxC) OR 1)))
         + 1)"

definition cannotInsertBlock ::
  "build \<Rightarrow> PrimitiveCache \<Rightarrow> uint32_t \<Rightarrow> uint32_t \<Rightarrow> uint32_t \<Rightarrow> error + bool" where
  "cannotInsertBlock bld c idxA idxB idxC =
     (if idxA = idxB \<or> idxA = idxC \<or> idxB = idxC then Inr False
      else if length (vertices c) < unat (numVertices c) then Inl OutOfBounds
      else
        let found = countFound c [idxA, idxB, idxC];
            deltaBits = max (cmpBits bld c idxA idxB idxC) (numVertexDeltaBits c);
            newVertices = numVertices c + 3 - found;
            newPrims = numPrims c + 1;
            newVertBits = (newVertices - 1) * deltaBits;
            newPrimBits = (newPrims - 1) * 3 * primitiveBits c;
            newBits = newVertBits + newPrimBits
        in Inr (newPrims > maxPrimitiveSize c \<or> newVertices > maxVertexSize c
                \<or> newBits > maxBlockBits c))"

text \<open>
  The search loop of \<open>insert\<close>: the first \<open>v < numVertices\<close> with \<open>idx == vertices[v]\<close>,
  counted as a \<open>uint32_t\<close> from the start value.
\<close>

fun search :: "uint32_t \<Rightarrow> uint32_t list \<Rightarrow> uint32_t \<Rightarrow> uint32_t option" where
  "search idx [] v = None"
| "search idx (x # xs) v = (if idx = x then Some v else search idx xs (v + 1))"

text \<open>
  One round of the loop \<open>for(int i = 0; i < 3; i++)\<close> of \<open>insert\<close>: the new cache and
  \<open>tri[i]\<close>. When the index is not among \<open>vertices[0 .. numVertices)\<close> and \<open>numVertices\<close>
  is not a position of the array, the search or the store leaves the array.
\<close>

definition insertVertex ::
  "build \<Rightarrow> PrimitiveCache \<Rightarrow> uint32_t \<Rightarrow> error + (PrimitiveCache \<times> uint32_t)" where
  "insertVertex bld c idx =
     (case search idx (take (unat (numVertices c)) (vertices c)) 0 of
        Some v \<Rightarrow> Inr (c, v)
      | None \<Rightarrow>
          if \<not> unat (numVertices c) < length (vertices c) then Inl OutOfBounds
          else
            let c1 = c\<lparr> vertices := (vertices c)[unat (numVertices c) := idx] \<rparr>;
                c2 = (if numVertices c1 \<noteq> 0
                      then c1\<lparr> numVertexDeltaBits :=
                                  max (findMSB bld ((idx XOR vertices c1 ! 0) OR 1) + 1)
                                      (numVertexDeltaBits c1) \<rparr>
                      else c1);
                c3 = c2\<lparr> numVertexAllBits :=
                            max (numVertexAllBits c2) (findMSB bld idx + 1) \<rparr>
            in Inr (c3\<lparr> numVertices := numVertices c3 + 1 \<rparr>, numVertices c))"

text \<open>
  The loop \<open>for(int i = 0; i < 3; i++)\<close> of \<open>insert\<close> over the indices that are left,
  returning the cache and the entries of \<open>tri\<close> it has set, in order.
\<close>

fun insertLoop ::
  "build \<Rightarrow> PrimitiveCache \<Rightarrow> uint32_t list \<Rightarrow> error + (PrimitiveCache \<times> uint32_t list)" where
  "insertLoop bld c [] = Inr (c, [])"
| "insertLoop bld c (idx # rest) =
     (case insertVertex bld c idx of
        Inl e \<Rightarrow> Inl e
      | Inr (c1, t) \<Rightarrow>
          (case insertLoop bld c1 rest of
             Inl e \<Rightarrow> Inl e
           | Inr (c2, tri) \<Rightarrow> Inr (c2, t # tri)))"

text \<open>
  \<open>PrimitiveCache::insert\<close> (named \<open>insert_tri\<close>, since \<open>insert\<close> is the set operation of
  HOL). The local indices are narrowed to \<open>uint8_t\<close> when stored. The degenerate case
  returns before the \<open>assert\<close>; otherwise a failing \<open>assert(fitsBlock())\<close> is
  \<open>AssertionFailed\<close> unless \<open>NDEBUG\<close> is defined.
\<close>

definition insert_tri ::
  "build \<Rightarrow> PrimitiveCache \<Rightarrow> uint32_t \<Rightarrow> uint32_t \<Rightarrow> uint32_t \<Rightarrow> error + PrimitiveCache" where
  "insert_tri bld c idxA idxB idxC =
     (if idxA = idxB \<or> idxA = idxC \<or> idxB = idxC then Inr c
      else
        case insertLoop bld c [idxA, idxB, idxC] of
          Inl e \<Rightarrow> Inl e
        | Inr (c3, tri) \<Rightarrow>
            if \<not> unat (numPrims c3) < length (primitives c3) then Inl OutOfBounds
            else
              let c4 = c3\<lparr> primitives :=
                            (primitives c3)[unat (numPrims c3) :=
                               [ucast (tri ! 0), ucast (tri ! 1), ucast (tri ! 2)]],
                          numPrims := numPrims c3 + 1 \<rparr>
              in if ndebug bld \<or> fitsBlock c4 then Inr c4 else Inl AssertionFailed)"

section \<open>Streams of triangles\<close>

type_synonym triangle = "uint32_t \<times> uint32_t \<times> uint32_t"

definition degenerate :: "triangle \<Rightarrow> bool" where
  "degenerate t = (case t of (a, b, c) \<Rightarrow> a = b \<or> a = c \<or> b = c)"

definition corners :: "triangle \<Rightarrow> uint32_t list" where
  "corners t = (case t of (a, b, c) \<Rightarrow> [a, b, c])"


text \<open>
  The check-then-insert protocol of the caller: every \<open>insert\<close> is preceded by
  \<open>cannotInsert\<close> returning false for the same three indices on the current state. The
  result is \<open>None\<close> when the stream leaves the protocol (a check does not return false)
  or an \<open>insert\<close> fails, and the final cache otherwise.
\<close>

fun checkThenInsert :: "build \<Rightarrow> PrimitiveCache \<Rightarrow> triangle list \<Rightarrow> PrimitiveCache option" where
  "checkThenInsert bld c [] = Some c"
| "checkThenInsert bld c ((a, b, d) # ts) =
     (if cannotInsert c a b d = Inr False
      then (case insert_tri bld c a b d of
              Inl e \<Rightarrow> None
            | Inr c' \<Rightarrow> checkThenInsert bld c' ts)
      else None)"

text \<open>
  The order of first use of the spec's data model: the distinct elements of a list in the
  order in which each occurs first, continuing from those already seen.
\<close>

fun spec_firstUse :: "uint32_t list \<Rightarrow> uint32_t list \<Rightarrow> uint32_t list" where
  "spec_firstUse seen [] = seen"
| "spec_firstUse seen (x # xs) =
     (if x \<in> set seen then spec_firstUse seen xs else spec_firstUse (seen @ [x]) xs)"

section \<open>Notions used to state and prove the properties\<close>

text \<open>
  None of the definitions of this section is code of the repository. \<open>configure\<close> is the
  caller setting the four configuration members; \<open>observe\<close> is what a reader of the cache
  can see: the four counters and the used parts of the two arrays.
  \<open>observe_but_allBits\<close> is the same without \<open>numVertexAllBits\<close>, the one member that
  \<open>insert\<close> computes from \<open>findMSB(idx)\<close>.
\<close>

definition configure ::
  "PrimitiveCache \<Rightarrow> uint32_t \<Rightarrow> uint32_t \<Rightarrow> uint32_t \<Rightarrow> uint32_t \<Rightarrow> PrimitiveCache" where
  "configure c mv mp pb mb =
     c\<lparr> maxVertexSize := mv, maxPrimitiveSize := mp, primitiveBits := pb, maxBlockBits := mb \<rparr>"


definition observe_but_allBits ::
  "PrimitiveCache \<Rightarrow> uint32_t \<times> uint32_t \<times> uint32_t \<times> uint8_t list list \<times> uint32_t list" where
  "observe_but_allBits c =
     (numPrims c, numVertices c, numVertexDeltaBits c,
      take (unat (numPrims c)) (primitives c), take (unat (numVertices c)) (vertices c))"

text \<open>
  Two caches that agree on everything the operations read; with \<open>full\<close>, also on
  \<open>numVertexAllBits\<close>, which the source reads only in the statement that updates it.
\<close>

definition alike :: "bool \<Rightarrow> PrimitiveCache \<Rightarrow> PrimitiveCache \<Rightarrow> bool" where
  "alike full c1 c2 \<longleftrightarrow>
     observe_but_allBits c1 = observe_but_allBits c2
     \<and> (full \<longrightarrow> numVertexAllBits c1 = numVertexAllBits c2)
     \<and> length (vertices c1) = length (vertices c2)
     \<and> length (primitives c1) = length (primitives c2)
     \<and> maxVertexSize c1 = maxVertexSize c2 \<and> maxPrimitiveSize c1 = maxPrimitiveSize c2
     \<and> primitiveBits c1 = primitiveBits c2 \<and> maxBlockBits c1 = maxBlockBits c2"

text \<open>
  The vertices a cache holds, \<open>vertices[0 .. numVertices)\<close>, and the invariants of the
  protocol: the arrays have their declared sizes and the held vertices are pairwise
  distinct (\<open>wellFormed\<close>); the counters and the configured maxima respect the hard limits
  (\<open>withinLimits\<close>).
\<close>

definition held :: "PrimitiveCache \<Rightarrow> uint32_t list" where
  "held c = take (unat (numVertices c)) (vertices c)"

definition wellFormed :: "PrimitiveCache \<Rightarrow> bool" where
  "wellFormed c \<longleftrightarrow>
     length (vertices c) = MAX_VERTEX_COUNT_LIMIT
     \<and> length (primitives c) = MAX_PRIMITIVE_COUNT_LIMIT
     \<and> unat (numVertices c) \<le> MAX_VERTEX_COUNT_LIMIT
     \<and> distinct (held c)"

definition withinLimits :: "PrimitiveCache \<Rightarrow> bool" where
  "withinLimits c \<longleftrightarrow>
     maxVertexSize c \<le> 256 \<and> maxPrimitiveSize c \<le> 256
     \<and> numVertices c \<le> maxVertexSize c \<and> numPrims c \<le> maxPrimitiveSize c"

text \<open>
  What one index adds to \<open>found\<close> in the counting loops; the members that the vertex loop
  of \<open>insert\<close> leaves alone; the cache after \<open>insert\<close> has appended a vertex, and after it
  has stored the primitive.
\<close>

definition present :: "uint32_t \<Rightarrow> uint32_t list \<Rightarrow> uint32_t" where
  "present a p = (if a \<in> set p then 1 else 0)"

definition sameFrame :: "PrimitiveCache \<Rightarrow> PrimitiveCache \<Rightarrow> bool" where
  "sameFrame c c' \<longleftrightarrow>
     primitives c' = primitives c \<and> numPrims c' = numPrims c
     \<and> maxVertexSize c' = maxVertexSize c \<and> maxPrimitiveSize c' = maxPrimitiveSize c
     \<and> primitiveBits c' = primitiveBits c \<and> maxBlockBits c' = maxBlockBits c"

definition appended_vertex :: "build \<Rightarrow> PrimitiveCache \<Rightarrow> uint32_t \<Rightarrow> PrimitiveCache" where
  "appended_vertex bld c idx =
     c\<lparr> vertices := (vertices c)[unat (numVertices c) := idx],
        numVertexDeltaBits :=
          (if numVertices c \<noteq> 0
           then max (findMSB bld ((idx XOR vertices c ! 0) OR 1) + 1) (numVertexDeltaBits c)
           else numVertexDeltaBits c),
        numVertexAllBits := max (numVertexAllBits c) (findMSB bld idx + 1),
        numVertices := numVertices c + 1 \<rparr>"

definition stored :: "PrimitiveCache \<Rightarrow> uint32_t list \<Rightarrow> PrimitiveCache" where
  "stored c3 tri =
     c3\<lparr> primitives := (primitives c3)[unat (numPrims c3) :=
                            [ucast (tri ! 0), ucast (tri ! 1), ucast (tri ! 2)]],
         numPrims := numPrims c3 + 1 \<rparr>"

text \<open>
  The cache holds the triangles of a stream: one primitive per triangle, in order, whose
  local indices lead back to the original indices, over the vertices in order of first use.
\<close>

definition recorded :: "PrimitiveCache \<Rightarrow> triangle list \<Rightarrow> bool" where
  "recorded c ts \<longleftrightarrow>
     unat (numPrims c) = length ts
     \<and> (\<forall>p < length ts. \<forall>k < 3.
           unat (primitives c ! p ! k) < unat (numVertices c)
           \<and> vertices c ! unat (primitives c ! p ! k) = corners (ts ! p) ! k)
     \<and> held c = spec_firstUse [] (concat (map corners ts))"

text \<open>
  The delta width of one index against the first vertex, the widest delta among the
  vertices after the first, and the invariant that \<open>numVertexDeltaBits\<close> is that width.
\<close>

definition deltaOf :: "build \<Rightarrow> uint32_t \<Rightarrow> uint32_t \<Rightarrow> uint32_t" where
  "deltaOf bld v0 x = findMSB bld ((x XOR v0) OR 1) + 1"

definition widest :: "build \<Rightarrow> uint32_t list \<Rightarrow> uint32_t" where
  "widest bld q = Max (insert 0 (deltaOf bld (hd q) ` set (tl q)))"

definition deltaTracked :: "build \<Rightarrow> PrimitiveCache \<Rightarrow> bool" where
  "deltaTracked bld c \<longleftrightarrow> numVertexDeltaBits c = widest bld (held c)"

text \<open>Caches for the examples: a configured fresh one, and one left over from earlier use.\<close>

definition example_cache :: PrimitiveCache where
  "example_cache = PrimitiveCache_init\<lparr>maxVertexSize := 64, maxPrimitiveSize := 126\<rparr>"


section \<open>Statistics: properties\<close>

lemma Stats_append_sums:
  "meshletsTotal (Stats_append s other) = meshletsTotal s + meshletsTotal other"
  "meshletsStored (Stats_append s other) = meshletsStored s + meshletsStored other"
  "backfaceTotal (Stats_append s other) = backfaceTotal s + backfaceTotal other"
  "primIndices (Stats_append s other) = primIndices s + primIndices other"
  "primTotal (Stats_append s other) = primTotal s + primTotal other"
  "vertexIndices (Stats_append s other) = vertexIndices s + vertexIndices other"
  "vertexTotal (Stats_append s other) = vertexTotal s + vertexTotal other"
  "appended (Stats_append s other) = appended s + appended other"
  "primloadAvg (Stats_append s other) = primloadAvg s + primloadAvg other"
  "primloadVar (Stats_append s other) = primloadVar s + primloadVar other"
  "vertexloadAvg (Stats_append s other) = vertexloadAvg s + vertexloadAvg other"
  "vertexloadVar (Stats_append s other) = vertexloadVar s + vertexloadVar other"
  by (simp_all add: Stats_append_def)

lemma Stats_append_posBitTotal:
  "posBitTotal (Stats_append s other) = posBitTotal s"
  by (simp add: Stats_append_def)

text \<open>
  Claim C5 (every field of \<open>other\<close> is summed into the field of the receiver, \<open>posBitTotal\<close>
  among them, and no field is left unmerged) fails on the code: \<open>append\<close> has a statement
  for every field but \<open>posBitTotal\<close>. Appending a record whose \<open>posBitTotal\<close> is 1 to the
  default record leaves \<open>posBitTotal\<close> at 0, while the sum of the two prior values is 1.
\<close>

theorem Stats_append_drops_posBitTotal:
  "posBitTotal (Stats_append (Stats_init :: int Stats) (Stats_init\<lparr>posBitTotal := 1\<rparr>)) = 0
   \<and> posBitTotal (Stats_init :: int Stats)
       + posBitTotal (Stats_init\<lparr>posBitTotal := 1\<rparr> :: int Stats) = 1"
  by (simp add: Stats_append_def Stats_init_def)

text \<open>
  Claim C10: when \<open>appended\<close> or \<open>meshletsTotal\<close> is zero, \<open>fprint\<close> returns at once: it
  performs no division and writes no output.
\<close>

theorem Stats_fprint_guard:
  "appended s = 0 \<or> meshletsTotal s = 0 \<Longrightarrow> Stats_fprint s = []"
  by (auto simp add: Stats_fprint_def)

theorem Stats_fprint_guard_witness:
  "(appended (Stats_init :: int Stats) = 0 \<or> meshletsTotal (Stats_init :: int Stats) = 0)
   \<and> Stats_fprint (Stats_init :: int Stats) = []"
  using Stats_fprint_guard [of "Stats_init :: int Stats"]
  by (simp add: Stats_init_def)

section \<open>\<open>findMSB\<close>: properties\<close>

lemma scanReverse_bound: "scanReverse n x = Some p \<Longrightarrow> p < n"
  by (induction n) (auto split: if_splits)

lemma scanReverse_bit0: "0 < n \<Longrightarrow> bit x 0 \<Longrightarrow> scanReverse n x \<noteq> None"
  by (induction n) (auto split: if_splits intro: gr0I)

lemma scanReverse_one: "0 < n \<Longrightarrow> scanReverse n 1 = Some 0"
  by (induction n) (auto simp add: bit_1_iff)

lemma scanReverse_highest:
  "scanReverse n x = Some p \<Longrightarrow> bit x p \<and> (\<forall>j. p < j \<and> j < n \<longrightarrow> \<not> bit x j)"
proof (induction n)
  case 0
  then show ?case by simp
next
  case (Suc n)
  show ?case
  proof (cases "bit x n")
    case True
    then show ?thesis using Suc.prems by auto
  next
    case False
    then have "scanReverse n x = Some p" using Suc.prems by simp
    from Suc.IH [OF this] show ?thesis using False by (auto simp add: less_Suc_eq)
  qed
qed

lemma scanReverse_None: "scanReverse n x = None \<Longrightarrow> \<forall>j < n. \<not> bit x j"
  by (induction n) (auto split: if_splits simp add: less_Suc_eq)

text \<open>
  With \<open>_MSC_VER\<close>, \<open>findMSB\<close> of a non-zero value is the position of its most-significant
  set bit, as claim C1 says; without it, it is 31 minus that position.
\<close>

lemma findMSB_position:
  assumes "x \<noteq> 0"
  shows "\<exists>p < 32. bit x p \<and> (\<forall>j > p. \<not> bit x j)
           \<and> findMSB bld x = (if msc_ver bld then of_nat p else of_nat (31 - p))"
proof (cases "scanReverse 32 x")
  case None
  then have "\<forall>j < 32. \<not> bit x j" by (rule scanReverse_None)
  then have "x = 0" by (intro bit_word_eqI) simp
  then show ?thesis using assms by simp
next
  case (Some p)
  then have p: "p < 32" by (rule scanReverse_bound)
  from scanReverse_highest [OF Some] have b: "bit x p" "\<forall>j. p < j \<and> j < 32 \<longrightarrow> \<not> bit x j"
    by simp_all
  have "\<forall>j > p. \<not> bit x j"
  proof (intro allI impI)
    fix j assume "p < j"
    show "\<not> bit x j"
    proof (cases "j < 32")
      case True
      then show ?thesis using b(2) \<open>p < j\<close> by simp
    next
      case False
      then show ?thesis using bit_imp_le_length [of x j] by auto
    qed
  qed
  moreover have "findMSB bld x = (if msc_ver bld then of_nat p else of_nat (31 - p))"
    by (simp only: findMSB_def BitScanReverse_def builtin_clz_def Some option.case)
  ultimately show ?thesis using p b(1) by blast
qed

lemma findMSB_clz_1: "findMSB gnu_build 1 = 31"
  by (simp add: findMSB_def builtin_clz_def eval_nat_numeral)

lemma findMSB_clz_3: "findMSB gnu_build 3 = 30"
  by (simp add: findMSB_def builtin_clz_def eval_nat_numeral)

lemma findMSB_bsr_1: "findMSB msc_build 1 = 0"
  by (simp add: findMSB_def BitScanReverse_def eval_nat_numeral)

lemma findMSB_bsr_3: "findMSB msc_build 3 = 1"
  by (simp add: findMSB_def BitScanReverse_def eval_nat_numeral)

text \<open>
  Claim C1 (\<open>findMSB\<close> returns the position of the most-significant set bit, so that
  \<open>findMSB(1) = 0\<close>, and the candidate delta width of \<open>cannotInsertBlock\<close> is one plus the
  largest such position) fails on the code built without \<open>_MSC_VER\<close>: there \<open>findMSB\<close>
  returns the number of leading zeros, \<open>findMSB(1)\<close> is 31, and for the indices 4, 5, 6 on
  an empty cache the candidate width is 32 where the claim gives 2. The body for
  \<open>_MSC_VER\<close> gives 0 and 2.
\<close>

theorem findMSB_counts_leading_zeros:
  "findMSB gnu_build 1 = 31
   \<and> cmpBits gnu_build PrimitiveCache_init 4 5 6 = 32
   \<and> findMSB msc_build 1 = 0
   \<and> cmpBits msc_build PrimitiveCache_init 4 5 6 = 2"
  by (simp add: cmpBits_def PrimitiveCache_init_def
      findMSB_clz_1 findMSB_clz_3 findMSB_bsr_1 findMSB_bsr_3)

section \<open>Degenerate triangles\<close>

text \<open>
  Claim C6: for every cache state and every triangle with two equal indices,
  \<open>cannotInsert\<close> and \<open>cannotInsertBlock\<close> return false and \<open>insert\<close> returns the cache as
  it was, every field unchanged.
\<close>

theorem degenerate_is_skipped:
  assumes "a = b \<or> a = d \<or> b = d"
  shows "cannotInsert c a b d = Inr False
         \<and> cannotInsertBlock bld c a b d = Inr False
         \<and> insert_tri bld c a b d = Inr c"
  using assms by (auto simp: cannotInsert_def cannotInsertBlock_def insert_tri_def)

theorem degenerate_is_skipped_witness:
  "cannotInsert PrimitiveCache_init 5 5 9 = Inr False
   \<and> cannotInsertBlock gnu_build PrimitiveCache_init 5 5 9 = Inr False
   \<and> insert_tri gnu_build PrimitiveCache_init 5 5 9
       = Inr PrimitiveCache_init"
  using degenerate_is_skipped [of 5 5 9 PrimitiveCache_init "gnu_build"]
  by simp

section \<open>Bit-field codec: properties\<close>

lemma lo_only:
  fixes v :: uint32_t
  assumes "s + w \<le> 32"
  shows "drop_bit s (push_bit s v) AND mask w = take_bit w v"
  using assms by (intro bit_word_eqI) (auto simp add: bit_simps)

lemma lo_part:
  fixes v :: uint32_t
  assumes "s \<le> 32"
  shows "drop_bit s (push_bit s v) AND mask (32 - s) = take_bit (32 - s) v"
  using assms by (intro bit_word_eqI) (auto simp add: bit_simps)

lemma lo_part32:
  fixes v :: uint32_t
  assumes "s \<le> 32"
  shows "drop_bit s (push_bit s v) = take_bit (32 - s) v"
  using assms by (intro bit_word_eqI) (auto simp add: bit_simps)

lemma straddle:
  fixes v :: uint32_t
  assumes "s < 32" "w \<le> 32" "32 < s + w"
  shows "take_bit (32 - s) v OR push_bit (32 - s) (drop_bit (32 - s) v AND mask (s + w - 32)) = take_bit w v"
  using assms by (intro bit_word_eqI) (auto simp add: bit_simps)

lemma shl_small: "unat n < 32 \<Longrightarrow> shl bld x n = push_bit (unat n) x"
  by (simp add: shl_def)

lemma shr_small: "unat n < 32 \<Longrightarrow> shr bld x n = drop_bit (unat n) x"
  by (simp add: shr_def)

lemma shl_zero: "shl bld 0 n = 0"
  by (simp add: shl_def)

lemma mask_shl: "unat n < 32 \<Longrightarrow> shl bld 1 n - 1 = mask (unat n)"
  by (simp add: shl_def mask_eq_exp_minus_1)

lemma unat_div32: "unat ((x::uint32_t) div 32) = unat x div 32"
  by (simp add: unat_div)
lemma unat_mod32: "unat ((x::uint32_t) mod 32) = unat x mod 32"
  by (simp add: unat_mod)

lemma unat_idx_succ: "unat ((x::uint32_t) div 32 + 1) = unat x div 32 + 1"
proof -
  have "unat (x div 32) < 2 ^ 27"
    using unsigned_less [of x, where ?'a = nat] by (simp add: unat_div)
  then have "unat (x div 32) + unat (1::uint32_t) < 2 ^ LENGTH(32)" by simp
  then have "unat (x div 32 + 1) = unat (x div 32) + unat (1::uint32_t)"
    by (simp only: unat_add_lem [THEN iffD1])
  then show ?thesis by (simp add: unat_div)
qed

lemma onlyLo_iff:
  fixes width offset :: uint32_t
  assumes "width \<le> 32"
  shows "(offset mod 32 + width \<le> 32) \<longleftrightarrow> unat offset mod 32 + unat width \<le> 32"
proof -
  have w: "unat width \<le> 32" using assms by (simp add: word_le_nat_alt)
  have s: "unat (offset mod 32) < 32" by (simp add: unat_mod)
  have "unat (offset mod 32) + unat width < 2 ^ LENGTH(32)" using w s by simp
  then have "unat (offset mod 32 + width) = unat (offset mod 32) + unat width"
    by (simp only: unat_add_lem [THEN iffD1])
  then show ?thesis by (simp add: word_le_nat_alt unat_mod)
qed

lemma unat_sizeLo: "unat (32 - (offset::uint32_t) mod 32) = 32 - unat offset mod 32"
proof -
  have "offset mod 32 \<le> 32" by (simp add: word_le_nat_alt unat_mod less_imp_le)
  then show ?thesis by (simp add: unat_sub unat_mod)
qed

lemma unat_sizeHi:
  fixes width offset :: uint32_t
  assumes "width \<le> 32" "32 < unat offset mod 32 + unat width"
  shows "unat (offset mod 32 + width - 32) = unat offset mod 32 + unat width - 32"
proof -
  have w: "unat width \<le> 32" using assms by (simp add: word_le_nat_alt)
  have s: "unat (offset mod 32) < 32" by (simp add: unat_mod)
  have "unat (offset mod 32) + unat width < 2 ^ LENGTH(32)" using w s by simp
  then have e: "unat (offset mod 32 + width) = unat (offset mod 32) + unat width"
    by (simp only: unat_add_lem [THEN iffD1])
  then have "32 \<le> offset mod 32 + width" using assms by (simp add: word_le_nat_alt unat_mod)
  then show ?thesis using e by (simp add: unat_sub unat_mod)
qed

lemma mask32: "mask 32 = (- 1 :: uint32_t)"
  using mask_full [where ?'a = 32] by simp

lemma idx_succ_less:
  fixes offset arraySize :: uint32_t
  shows "(offset div 32 + 1 < arraySize) \<longleftrightarrow> unat offset div 32 + 1 < unat arraySize"
  by (simp add: word_less_nat_alt unat_idx_succ)

text \<open>
  Claim C7: for every width from 1 to 32, every value and every offset such that the
  whole field lies within the array, \<open>setBitField\<close> on the zero-initialised array
  succeeds and \<open>getBitField\<close> with the same width and offset then returns the value
  modulo \<open>2 ^ width\<close>. The field may lie in one word or straddle two, and the result
  does not depend on what the target does with a shift by 32.
\<close>

theorem bitfield_roundtrip:
  fixes width offset arraySize val :: uint32_t
  assumes w1: "1 \<le> width" and w32: "width \<le> 32"
    and fits: "unat offset + unat width \<le> 32 * unat arraySize"
  shows "\<exists>bits' r. setBitField bld arraySize (replicate (unat arraySize) 0) width offset val = Inr bits'
           \<and> getBitField bld arraySize bits' width offset = Inr r
           \<and> unat r = unat val mod 2 ^ unat width"
proof -
  define i where "i = unat offset div 32"
  define s where "s = unat offset mod 32"
  define w where "w = unat width"
  define n where "n = unat arraySize"
  have wpos: "0 < w" and wle: "w \<le> 32"
    using w1 w32 by (simp_all add: w_def word_le_nat_alt)
  have slt: "s < 32" by (simp add: s_def)
  have off: "unat offset = 32 * i + s" by (simp add: i_def s_def)
  have iltn: "i < n" using fits wpos off by (simp add: w_def n_def)
  have idx: "offset div 32 < arraySize"
    using iltn by (simp add: word_less_nat_alt unat_div i_def n_def)
  have tb: "unat (take_bit w val) = unat val mod 2 ^ w"
    unfolding unsigned_take_bit_eq by (simp add: take_bit_eq_mod)
  show ?thesis
  proof (cases "s + w \<le> 32")
    case True
    then have only: "offset mod 32 + width \<le> 32"
      using w32 by (simp add: onlyLo_iff s_def w_def)
    have "width \<noteq> 32 \<Longrightarrow> unat width < 32"
      using wle by (auto simp add: w_def le_less dest: arg_cong [where f = "word_of_nat :: nat \<Rightarrow> uint32_t"])
    then have m: "(if width = 32 then - 1 else shl bld 1 width - 1) = mask w"
      by (auto simp add: mask_shl w_def mask32)
    have r: "shr bld (shl bld val (offset mod 32)) (offset mod 32)
               AND (if width = 32 then - 1 else shl bld 1 width - 1) = take_bit w val"
      unfolding m using lo_only [OF True, of val]
      by (simp add: shl_small shr_small unat_mod s_def)
    have z: "shl bld 1 0 - 1 = (0::uint32_t)" by (simp add: shl_small)
    have z2: "shl bld 0 width = 0" by (rule shl_zero)
    have F: "unat (shr bld (shl bld val (offset mod 32)) (offset mod 32)
               AND (if width = 32 then - 1 else shl bld 1 width - 1)) = unat val mod 2 ^ unat width"
      unfolding r tb by (simp add: w_def)
    show ?thesis
      using idx only iltn F
      by (simp add: setBitField_def getBitField_def Let_def unat_div unat_idx_succ
          idx_succ_less z z2 split: if_split_asm flip: i_def n_def)
  next
    case False
    then have big: "32 < s + w" by simp
    then have only: "\<not> offset mod 32 + width \<le> 32"
      using w32 by (simp add: onlyLo_iff s_def w_def)
    have i1: "i + 1 < n" using fits big off by (simp add: w_def n_def)
    have hi: "unat (offset mod 32 + width - 32) = s + w - 32"
      using w32 big by (simp add: unat_sizeHi s_def w_def)
    have lo32: "unat (32 - offset mod 32) < 32"
      using big wle by (simp add: unat_sizeLo flip: s_def)
    have hi32: "unat (offset mod 32 + width - 32) < 32"
      unfolding hi using slt wle by simp
    have m: "shr bld (shl bld val (offset mod 32)) (offset mod 32)
               AND (if width = 32 then - 1 else shl bld 1 (32 - offset mod 32) - 1)
        = take_bit (32 - s) val"
    proof -
      have a: "shr bld (shl bld val (offset mod 32)) (offset mod 32) = drop_bit s (push_bit s val)"
        by (simp add: shl_small shr_small unat_mod s_def)
      have b: "shl bld 1 (32 - offset mod 32) - 1 = (mask (32 - s) :: uint32_t)"
        by (simp only: mask_shl [OF lo32] unat_sizeLo s_def)
      have c: "drop_bit s (push_bit s val) AND mask (32 - s) = take_bit (32 - s) val"
        using slt by (intro lo_part) simp
      have d: "drop_bit s (push_bit s val) = take_bit (32 - s) val"
        using slt by (intro lo_part32) simp
      show ?thesis
      proof (cases "width = 32")
        case True
        then show ?thesis unfolding a by (simp add: d)
      next
        case False
        then show ?thesis unfolding a b by (simp only: c if_False)
      qed
    qed
    have r: "shr bld (shl bld val (offset mod 32)) (offset mod 32)
               AND (if width = 32 then - 1 else shl bld 1 (32 - offset mod 32) - 1)
             OR shl bld (shr bld val (32 - offset mod 32) AND (shl bld 1 (offset mod 32 + width - 32) - 1))
                    (32 - offset mod 32)
             = take_bit w val"
    proof -
      have hiE: "shl bld (shr bld val (32 - offset mod 32) AND (shl bld 1 (offset mod 32 + width - 32) - 1))
                    (32 - offset mod 32)
                 = push_bit (32 - s) (drop_bit (32 - s) val AND mask (s + w - 32))"
      proof -
        have "shl bld 1 (offset mod 32 + width - 32) - 1 = (mask (s + w - 32) :: uint32_t)"
          by (simp only: mask_shl [OF hi32] hi)
        then show ?thesis
          by (simp only: shl_small [OF lo32] shr_small [OF lo32] unat_sizeLo flip: s_def)
      qed
      show ?thesis
        unfolding m hiE by (rule straddle [OF slt wle big])
    qed
    have F: "unat (shr bld (shl bld val (offset mod 32)) (offset mod 32)
               AND (if width = 32 then - 1 else shl bld 1 (32 - offset mod 32) - 1)
             OR shl bld (shr bld val (32 - offset mod 32) AND (shl bld 1 (offset mod 32 + width - 32) - 1))
                    (32 - offset mod 32)) = unat val mod 2 ^ unat width"
      unfolding r tb by (simp add: w_def)
    show ?thesis
      using idx only iltn i1 F
      by (simp add: setBitField_def getBitField_def Let_def unat_div unat_idx_succ
          idx_succ_less split: if_split_asm flip: i_def n_def)
  qed
qed

theorem bitfield_roundtrip_witness:
  "\<exists>bits' r. setBitField gnu_build 2 (replicate (unat (2::uint32_t)) 0) 12 26 0xABCDE = Inr bits'
           \<and> getBitField gnu_build 2 bits' 12 26 = Inr r
           \<and> unat r = unat (0xABCDE::uint32_t) mod 2 ^ unat (12::uint32_t)"
  using bitfield_roundtrip [where offset = 26 and arraySize = 2 and width = 12
      and bld = gnu_build and val = "0xABCDE"]
  by simp


text \<open>
  Claim C8: when a field of width up to 32 starts in the last word of the array and
  straddles its end (the test \<open>shiftLo + width <= 32\<close> of the source fails), \<open>setBitField\<close> on the
  zero-initialised array stores only the low part, in the last word, and returns without
  an error; \<open>getBitField\<close> reads the word past the end as zero and returns, without an
  error, the value with every bit from position \<open>32 - offset % 32\<close> upwards cleared.
\<close>

theorem bitfield_past_the_end:
  fixes width offset arraySize val :: uint32_t
  assumes w32: "width \<le> 32"
    and last: "unat offset div 32 + 1 = unat arraySize"
    and straddles: "\<not> offset mod 32 + width \<le> 32"
  shows "setBitField bld arraySize (replicate (unat arraySize) 0) width offset val
           = Inr ((replicate (unat arraySize) 0)[unat offset div 32 := shl bld val (offset mod 32)])
         \<and> (\<exists>r. getBitField bld arraySize
                 ((replicate (unat arraySize) 0)[unat offset div 32 := shl bld val (offset mod 32)])
                 width offset = Inr r
               \<and> unat r = unat val mod 2 ^ (32 - unat offset mod 32))"
proof -
  define s where "s = unat offset mod 32"
  have slt: "s < 32" by (simp add: s_def)
  have idx: "offset div 32 < arraySize"
    using last by (simp add: word_less_nat_alt unat_div)
  have nohi: "\<not> offset div 32 + 1 < arraySize"
    using last by (simp add: idx_succ_less)
  have "unat width \<le> 32" using w32 by (simp add: word_le_nat_alt)
  moreover have "\<not> s + unat width \<le> 32"
    using straddles w32 by (simp add: onlyLo_iff s_def)
  ultimately have lo32: "unat (32 - offset mod 32) < 32"
    by (simp add: unat_sizeLo flip: s_def)
  have a: "shr bld (shl bld val (offset mod 32)) (offset mod 32) = take_bit (32 - s) val"
    using slt lo_part32 [of s val] by (simp add: shl_small shr_small unat_mod s_def)
  have b: "shl bld 1 (32 - offset mod 32) - 1 = (mask (32 - s) :: uint32_t)"
    by (simp only: mask_shl [OF lo32] unat_sizeLo s_def)
  have e: "take_bit (32 - s) val AND mask (32 - s) = take_bit (32 - s) val"
    by (intro bit_word_eqI) (auto simp add: bit_simps)
  have tb: "unat (take_bit (32 - s) val) = unat val mod 2 ^ (32 - s)"
    unfolding unsigned_take_bit_eq by (simp add: take_bit_eq_mod)
  have F: "unat (shr bld (shl bld val (offset mod 32)) (offset mod 32)
             AND (if width = 32 then - 1 else shl bld 1 (32 - offset mod 32) - 1))
           = unat val mod 2 ^ (32 - unat offset mod 32)"
  proof -
    have G: "shr bld (shl bld val (offset mod 32)) (offset mod 32)
             AND (if width = 32 then - 1 else shl bld 1 (32 - offset mod 32) - 1)
           = take_bit (32 - s) val"
    proof (cases "width = 32")
      case True
      then show ?thesis unfolding a by simp
    next
      case False
      then show ?thesis unfolding a b by (simp only: e if_False)
    qed
    show ?thesis unfolding G tb by (simp only: s_def)
  qed
  have z: "shl bld 0 (32 - offset mod 32) = 0" by (rule shl_zero)
  show ?thesis
    using idx nohi straddles last F
    by (simp add: setBitField_def getBitField_def Let_def unat_div z split: if_split_asm)
qed

theorem bitfield_past_the_end_witness:
  "setBitField gnu_build 1 (replicate (unat (1::uint32_t)) 0) 12 26 0xABCDE
           = Inr ((replicate (unat (1::uint32_t)) 0)[unat (26::uint32_t) div 32 := shl gnu_build 0xABCDE (26 mod 32)])
         \<and> (\<exists>r. getBitField gnu_build 1
                 ((replicate (unat (1::uint32_t)) 0)[unat (26::uint32_t) div 32 := shl gnu_build 0xABCDE (26 mod 32)])
                 12 26 = Inr r
               \<and> unat r = unat (0xABCDE::uint32_t) mod 2 ^ (32 - unat (26::uint32_t) mod 32))"
  using bitfield_past_the_end [where offset = 26 and arraySize = 1 and width = 12
      and bld = gnu_build and val = "0xABCDE"]
  by simp

section \<open>The primitive cache under the check-then-insert protocol\<close>

lemma search_None_iff: "search idx xs v = None \<longleftrightarrow> idx \<notin> set xs"
  by (induction xs arbitrary: v) auto

lemma search_Some:
  "search idx xs v = Some r \<Longrightarrow>
     \<exists>i < length xs. r = v + of_nat i \<and> xs ! i = idx"
proof (induction xs arbitrary: v)
  case Nil
  then show ?case by simp
next
  case (Cons x xs)
  show ?case
  proof (cases "idx = x")
    case True
    with Cons.prems show ?thesis by auto
  next
    case False
    with Cons.prems have "search idx xs (v + 1) = Some r" by simp
    from Cons.IH [OF this] obtain i where "i < length xs" "r = v + 1 + of_nat i" "xs ! i = idx"
      by blast
    then have "Suc i < length (x # xs) \<and> r = v + of_nat (Suc i) \<and> (x # xs) ! Suc i = idx"
      by simp
    then show ?thesis by blast
  qed
qed

lemma unat_of_nat_small: "i \<le> 256 \<Longrightarrow> unat (of_nat i :: uint32_t) = i"
  by (simp add: unat_of_nat)

lemma length_held: "unat (numVertices c) \<le> length (vertices c) \<Longrightarrow> length (held c) = unat (numVertices c)"
  by (simp add: held_def)

lemma present_Nil: "present a [] = 0"
  by (simp add: present_def)

lemma present_Cons:
  "x \<notin> set xs \<Longrightarrow> present a (x # xs) = (if x = a then 1 else 0) + present a xs"
  by (auto simp add: present_def)

lemma countInner3:
  "countInner x [a, b, d] f
     = f + (if x = a then 1 else 0) + (if x = b then 1 else 0) + (if x = d then 1 else 0)"
  by simp

lemma countOuter3:
  "distinct p \<Longrightarrow> countOuter p [a, b, d] f = f + present a p + present b p + present d p"
proof (induction p arbitrary: f)
  case Nil
  then show ?case by (simp add: present_Nil)
next
  case (Cons x xs)
  then have IH: "\<And>f. countOuter xs [a, b, d] f = f + present a xs + present b xs + present d xs"
    and nx: "x \<notin> set xs" by simp_all
  have "countOuter (x # xs) [a, b, d] f = countOuter xs [a, b, d] (countInner x [a, b, d] f)"
    by simp
  also have "\<dots> = countInner x [a, b, d] f + present a xs + present b xs + present d xs"
    by (rule IH)
  also have "\<dots> = f + present a (x # xs) + present b (x # xs) + present d (x # xs)"
    unfolding countInner3 present_Cons [OF nx] by (simp only: ac_simps)
  finally show ?case .
qed

lemma sameFrame_refl: "sameFrame c c"
  by (simp add: sameFrame_def)

lemma sameFrame_trans: "sameFrame c c1 \<Longrightarrow> sameFrame c1 c2 \<Longrightarrow> sameFrame c c2"
  by (simp add: sameFrame_def)

lemma wellFormed_length_held:
  "wellFormed c \<Longrightarrow> length (held c) = unat (numVertices c)"
  by (simp add: wellFormed_def held_def)

lemma held_nth:
  "i < unat (numVertices c) \<Longrightarrow> held c ! i = vertices c ! i"
  by (simp add: held_def)

lemma insertVertex_found:
  assumes wf: "wellFormed c" and mem: "idx \<in> set (held c)"
  shows "\<exists>t. insertVertex bld c idx = Inr (c, t) \<and> unat t < unat (numVertices c)
             \<and> vertices c ! unat t = idx"
proof -
  from mem obtain r where r: "search idx (held c) 0 = Some r"
    using search_None_iff [of idx "held c" 0] by (cases "search idx (held c) 0") auto
  from search_Some [OF r] obtain i where i: "i < length (held c)" "r = of_nat i" "held c ! i = idx"
    by auto
  have len: "length (held c) = unat (numVertices c)" using wf by (rule wellFormed_length_held)
  have "i \<le> 256" using i(1) len wf by (simp add: wellFormed_def MAX_VERTEX_COUNT_LIMIT_def)
  then have u: "unat r = i" using i(2) by (simp add: unat_of_nat_small)
  have "insertVertex bld c idx = Inr (c, r)"
    using r by (simp add: insertVertex_def held_def)
  moreover have "unat r < unat (numVertices c)" using u i(1) len by simp
  moreover have "vertices c ! unat r = idx" using u i len by (simp add: held_nth)
  ultimately show ?thesis by blast
qed

lemma unat_succ_small:
  "unat (n::uint32_t) < 256 \<Longrightarrow> unat (n + 1) = unat n + 1"
proof -
  assume "unat n < 256"
  then have "unat n + unat (1::uint32_t) < 2 ^ LENGTH(32)" by simp
  then have "unat (n + 1) = unat n + unat (1::uint32_t)"
    by (simp only: unat_add_lem [THEN iffD1])
  then show ?thesis by simp
qed

lemma insertVertex_new:
  assumes wf: "wellFormed c" and new: "idx \<notin> set (held c)"
    and room: "unat (numVertices c) < 256"
  shows "insertVertex bld c idx = Inr (appended_vertex bld c idx, numVertices c)"
    and "held (appended_vertex bld c idx) = held c @ [idx]"
    and "unat (numVertices (appended_vertex bld c idx)) = unat (numVertices c) + 1"
    and "wellFormed (appended_vertex bld c idx)"
    and "sameFrame c (appended_vertex bld c idx)"
proof -
  have len: "length (vertices c) = 256"
    using wf by (simp add: wellFormed_def MAX_VERTEX_COUNT_LIMIT_def)
  have none: "search idx (take (unat (numVertices c)) (vertices c)) 0 = None"
    using new by (simp add: search_None_iff held_def)
  have nz: "numVertices c \<noteq> 0 \<Longrightarrow> (vertices c)[unat (numVertices c) := idx] ! 0 = vertices c ! 0"
    by (simp add: unat_eq_0 nth_list_update)
  show "insertVertex bld c idx = Inr (appended_vertex bld c idx, numVertices c)"
    using none room len nz
    by (auto simp add: insertVertex_def appended_vertex_def Let_def)
  have u: "unat (numVertices c + 1) = unat (numVertices c) + 1"
    using room by (rule unat_succ_small)
  then show "unat (numVertices (appended_vertex bld c idx)) = unat (numVertices c) + 1"
    by (simp add: appended_vertex_def)
  show h: "held (appended_vertex bld c idx) = held c @ [idx]"
    using room len u
    by (simp add: held_def appended_vertex_def take_Suc_conv_app_nth)
  show "wellFormed (appended_vertex bld c idx)"
    using wf new room u unfolding wellFormed_def h
    by (simp add: appended_vertex_def MAX_VERTEX_COUNT_LIMIT_def)
  show "sameFrame c (appended_vertex bld c idx)"
    by (simp add: sameFrame_def appended_vertex_def)
qed

lemma insertVertex_full:
  assumes wf: "wellFormed c" and new: "idx \<notin> set (held c)"
    and full: "unat (numVertices c) = 256"
  shows "insertVertex bld c idx = Inl OutOfBounds"
proof -
  have len: "length (vertices c) = 256"
    using wf by (simp add: wellFormed_def MAX_VERTEX_COUNT_LIMIT_def)
  have none: "search idx (take (unat (numVertices c)) (vertices c)) 0 = None"
    using new by (simp add: search_None_iff held_def)
  show ?thesis using none len full by (simp add: insertVertex_def)
qed

lemma spec_firstUse_extends: "\<exists>ys. spec_firstUse seen xs = seen @ ys"
proof (induction xs arbitrary: seen)
  case Nil
  then show ?case by simp
next
  case (Cons x xs)
  show ?case
  proof (cases "x \<in> set seen")
    case True
    then show ?thesis using Cons.IH [of seen] by simp
  next
    case False
    from Cons.IH [of "seen @ [x]"] obtain ys where "spec_firstUse (seen @ [x]) xs = (seen @ [x]) @ ys"
      by blast
    then show ?thesis using False by simp
  qed
qed

lemma spec_firstUse_length_mono: "length seen \<le> length (spec_firstUse seen xs)"
  using spec_firstUse_extends [of seen xs] by auto

lemma spec_firstUse_nth:
  "i < length seen \<Longrightarrow> spec_firstUse seen xs ! i = seen ! i"
  using spec_firstUse_extends [of seen xs] by (auto simp add: nth_append)

lemma insertLoop_effect:
  assumes "wellFormed c" and "length (spec_firstUse (held c) idxs) \<le> 256"
  shows "\<exists>c' tri. insertLoop bld c idxs = Inr (c', tri)
           \<and> wellFormed c' \<and> sameFrame c c'
           \<and> held c' = spec_firstUse (held c) idxs
           \<and> length tri = length idxs
           \<and> (\<forall>k < length idxs. unat (tri ! k) < unat (numVertices c')
                                  \<and> vertices c' ! unat (tri ! k) = idxs ! k)"
  using assms
proof (induction idxs arbitrary: c)
  case Nil
  then show ?case by (simp add: sameFrame_refl)
next
  case (Cons idx rest)
  have wf: "wellFormed c" by fact
  have len: "length (held c) = unat (numVertices c)" using wf by (rule wellFormed_length_held)
  have step: "\<exists>c1 t. insertVertex bld c idx = Inr (c1, t) \<and> wellFormed c1 \<and> sameFrame c c1
                 \<and> held c1 = spec_firstUse (held c) [idx]
                 \<and> unat t < unat (numVertices c1) \<and> vertices c1 ! unat t = idx"
  proof (cases "idx \<in> set (held c)")
    case True
    from insertVertex_found [OF wf True, of bld] obtain t where
      "insertVertex bld c idx = Inr (c, t)" "unat t < unat (numVertices c)" "vertices c ! unat t = idx"
      by blast
    then show ?thesis using wf True by (auto simp add: sameFrame_refl)
  next
    case False
    have "length (held c @ [idx]) \<le> length (spec_firstUse (held c @ [idx]) rest)"
      by (rule spec_firstUse_length_mono)
    also have "\<dots> \<le> 256" using Cons.prems(2) False by simp
    finally have room: "unat (numVertices c) < 256" using len by simp
    note n = insertVertex_new [OF wf False room, of bld]
    have "held (appended_vertex bld c idx) ! unat (numVertices c) = idx"
      unfolding n(2) using len by (simp add: nth_append)
    then have "vertices (appended_vertex bld c idx) ! unat (numVertices c) = idx"
      using n(3) by (simp add: held_nth)
    then show ?thesis using n False by auto
  qed
  then obtain c1 t where s1: "insertVertex bld c idx = Inr (c1, t)" "wellFormed c1" "sameFrame c c1"
      "held c1 = spec_firstUse (held c) [idx]" "unat t < unat (numVertices c1)"
      "vertices c1 ! unat t = idx" by blast
  have fu: "spec_firstUse (held c) (idx # rest) = spec_firstUse (held c1) rest"
    unfolding s1(4) by simp
  then have "length (spec_firstUse (held c1) rest) \<le> 256" using Cons.prems(2) by simp
  from Cons.IH [OF s1(2) this] obtain c2 tri where s2:
    "insertLoop bld c1 rest = Inr (c2, tri)" "wellFormed c2" "sameFrame c1 c2"
    "held c2 = spec_firstUse (held c1) rest" "length tri = length rest"
    "\<forall>k < length rest. unat (tri ! k) < unat (numVertices c2)
                          \<and> vertices c2 ! unat (tri ! k) = rest ! k"
    by blast
  have l1: "length (held c1) = unat (numVertices c1)" using s1(2) by (rule wellFormed_length_held)
  have l2: "length (held c2) = unat (numVertices c2)" using s2(2) by (rule wellFormed_length_held)
  have le12: "unat (numVertices c1) \<le> unat (numVertices c2)"
    using spec_firstUse_length_mono [of "held c1" rest] l1 l2 s2(4) by simp
  have t2: "unat t < unat (numVertices c2)" using s1(5) le12 by simp
  have "held c2 ! unat t = held c1 ! unat t"
    unfolding s2(4) using s1(5) l1 by (simp add: spec_firstUse_nth)
  then have v2: "vertices c2 ! unat t = idx"
    using t2 s1(5) s1(6) by (simp add: held_nth)
  have run: "insertLoop bld c (idx # rest) = Inr (c2, t # tri)"
    using s1(1) s2(1) by simp
  have pos: "\<forall>k < length (idx # rest). unat ((t # tri) ! k) < unat (numVertices c2)
                                  \<and> vertices c2 ! unat ((t # tri) ! k) = (idx # rest) ! k"
  proof (intro allI impI)
    fix k assume "k < length (idx # rest)"
    then show "unat ((t # tri) ! k) < unat (numVertices c2)
                 \<and> vertices c2 ! unat ((t # tri) ! k) = (idx # rest) ! k"
      using t2 v2 s2(6) by (cases k) simp_all
  qed
  show ?case
    using run s2(2) sameFrame_trans [OF s1(3) s2(3)] s2(4) s2(5) pos fu by auto
qed

lemma firstUse3_length:
  assumes "a \<noteq> b" "a \<noteq> d" "b \<noteq> d"
  shows "length (spec_firstUse p [a, b, d])
         = length p + (if a \<in> set p then 0 else 1) + (if b \<in> set p then 0 else 1)
                    + (if d \<in> set p then 0 else 1)"
  using assms by auto

lemma of_nat_unat32: "of_nat (unat (n::uint32_t)) = n"
  by simp

lemma newVertices_word:
  assumes nd: "a \<noteq> b" "a \<noteq> d" "b \<noteq> d" and dist: "distinct p"
    and len: "length p = unat (n::uint32_t)"
  shows "n + 3 - countOuter p [a, b, d] 0 = of_nat (length (spec_firstUse p [a, b, d]))"
proof -
  have n: "of_nat (length p) = n" using len by simp
  show ?thesis
    unfolding countOuter3 [OF dist] firstUse3_length [OF nd]
    by (simp add: present_def n)
qed

lemma cannotInsert_value:
  assumes wf: "wellFormed c" and nd: "a \<noteq> b" "a \<noteq> d" "b \<noteq> d"
  shows "cannotInsert c a b d
         = Inr (of_nat (length (spec_firstUse (held c) [a, b, d])) > maxVertexSize c
                \<or> numPrims c + 1 > maxPrimitiveSize c)"
proof -
  have dist: "distinct (held c)" and len: "length (held c) = unat (numVertices c)"
    and lv: "\<not> length (vertices c) < unat (numVertices c)"
    using wf by (simp_all add: wellFormed_def held_def)
  have "numVertices c + 3 - countFound c [a, b, d]
        = of_nat (length (spec_firstUse (held c) [a, b, d]))"
    unfolding countFound_def held_def [symmetric] by (rule newVertices_word [OF nd dist len])
  then show ?thesis using nd lv by (simp add: cannotInsert_def Let_def)
qed

lemma firstUse3_le:
  "length (spec_firstUse p [a, b, d]) \<le> length p + 3"
  by auto

lemma cannotInsert_False_room:
  assumes wf: "wellFormed c" and lim: "withinLimits c" and nd: "a \<noteq> b" "a \<noteq> d" "b \<noteq> d"
    and ok: "cannotInsert c a b d = Inr False"
  shows "length (spec_firstUse (held c) [a, b, d]) \<le> unat (maxVertexSize c)"
    and "unat (numPrims c) + 1 \<le> unat (maxPrimitiveSize c)"
    and "unat (numPrims c + 1) = unat (numPrims c) + 1"
    and "unat (maxVertexSize c) \<le> 256" and "unat (maxPrimitiveSize c) \<le> 256"
proof -
  let ?L = "length (spec_firstUse (held c) [a, b, d])"
  have mv: "unat (maxVertexSize c) \<le> 256" and mp: "unat (maxPrimitiveSize c) \<le> 256"
    and np: "unat (numPrims c) \<le> unat (maxPrimitiveSize c)"
    using lim by (simp_all add: withinLimits_def word_le_nat_alt)
  show "unat (maxVertexSize c) \<le> 256" "unat (maxPrimitiveSize c) \<le> 256" by fact+
  have "length (held c) \<le> 256"
    using wf by (simp add: wellFormed_def held_def MAX_VERTEX_COUNT_LIMIT_def)
  then have L: "?L \<le> 259" using firstUse3_le [of "held c" a b d] by simp
  then have uL: "unat (of_nat ?L :: uint32_t) = ?L" by (simp add: unat_of_nat)
  from ok have a: "\<not> of_nat ?L > maxVertexSize c" and b: "\<not> numPrims c + 1 > maxPrimitiveSize c"
    unfolding cannotInsert_value [OF wf nd] by simp_all
  from a show "?L \<le> unat (maxVertexSize c)"
    using uL by (simp add: word_less_nat_alt not_less)
  have "unat (numPrims c) + unat (1::uint32_t) < 2 ^ LENGTH(32)" using np mp by simp
  then have "unat (numPrims c + 1) = unat (numPrims c) + unat (1::uint32_t)"
    by (simp only: unat_add_lem [THEN iffD1])
  then show u: "unat (numPrims c + 1) = unat (numPrims c) + 1" by simp
  from b show "unat (numPrims c) + 1 \<le> unat (maxPrimitiveSize c)"
    using u by (simp add: word_less_nat_alt not_less)
qed

lemma unat_ucast_small: "unat (t::uint32_t) < 256 \<Longrightarrow> unat (ucast t :: uint8_t) = unat t"
  by (simp add: unsigned_ucast_eq take_bit_nat_eq_self)

lemma held_stored: "held (stored c tri) = held c"
  by (simp add: held_def stored_def)

lemma wellFormed_stored: "wellFormed c \<Longrightarrow> wellFormed (stored c tri)"
  by (simp add: wellFormed_def held_stored) (simp add: stored_def)

lemma insert_tri_effect:
  assumes wf: "wellFormed c" and lim: "withinLimits c" and nd: "a \<noteq> b" "a \<noteq> d" "b \<noteq> d"
    and ok: "cannotInsert c a b d = Inr False"
  shows "\<exists>c3 tri. insertLoop bld c [a, b, d] = Inr (c3, tri)
           \<and> wellFormed c3 \<and> sameFrame c c3
           \<and> held c3 = spec_firstUse (held c) [a, b, d]
           \<and> (\<forall>k < 3. unat (tri ! k) < unat (numVertices c3)
                        \<and> vertices c3 ! unat (tri ! k) = [a, b, d] ! k)
           \<and> insert_tri bld c a b d
               = (if ndebug bld \<or> fitsBlock (stored c3 tri) then Inr (stored c3 tri)
                  else Inl AssertionFailed)"
proof -
  note room = cannotInsert_False_room [OF wf lim nd ok]
  have L: "length (spec_firstUse (held c) [a, b, d]) \<le> 256" using room(1) room(4) by simp
  from insertLoop_effect [OF wf L, of bld] obtain c3 tri where e:
    "insertLoop bld c [a, b, d] = Inr (c3, tri)" "wellFormed c3" "sameFrame c c3"
    "held c3 = spec_firstUse (held c) [a, b, d]"
    "\<forall>k < length [a, b, d]. unat (tri ! k) < unat (numVertices c3)
                        \<and> vertices c3 ! unat (tri ! k) = [a, b, d] ! k"
    by blast
  have np: "unat (numPrims c3) < length (primitives c3)"
    using e(2) e(3) room(2) room(5)
    by (simp add: wellFormed_def sameFrame_def MAX_PRIMITIVE_COUNT_LIMIT_def)
  have "insert_tri bld c a b d
               = (if ndebug bld \<or> fitsBlock (stored c3 tri) then Inr (stored c3 tri)
                  else Inl AssertionFailed)"
    using nd e(1) np by (simp add: insert_tri_def stored_def Let_def)
  then show ?thesis using e by auto
qed

lemma insert_tri_in_bounds:
  assumes wf: "wellFormed c" and lim: "withinLimits c"
    and ok: "cannotInsert c a b d = Inr False"
  shows "insert_tri bld c a b d \<noteq> Inl OutOfBounds"
proof (cases "a = b \<or> a = d \<or> b = d")
  case True
  then show ?thesis by (simp add: insert_tri_def)
next
  case False
  then have nd: "a \<noteq> b" "a \<noteq> d" "b \<noteq> d" by simp_all
  from insert_tri_effect [OF wf lim nd ok, of bld] obtain c3 tri where
    "insert_tri bld c a b d
       = (if ndebug bld \<or> fitsBlock (stored c3 tri) then Inr (stored c3 tri)
          else Inl AssertionFailed)" by blast
  then show ?thesis by (simp split: if_splits)
qed

lemma protocol_step:
  assumes wf: "wellFormed c" and lim: "withinLimits c" and nd: "a \<noteq> b" "a \<noteq> d" "b \<noteq> d"
    and ok: "cannotInsert c a b d = Inr False"
    and res: "insert_tri bld c a b d = Inr c'"
  shows "wellFormed c'" and "withinLimits c'"
    and "held c' = spec_firstUse (held c) [a, b, d]"
    and "unat (numPrims c') = unat (numPrims c) + 1"
    and "\<forall>k < 3. unat (primitives c' ! unat (numPrims c) ! k) < unat (numVertices c')
                  \<and> vertices c' ! unat (primitives c' ! unat (numPrims c) ! k) = [a, b, d] ! k"
    and "\<forall>p < unat (numPrims c). primitives c' ! p = primitives c ! p"
    and "\<forall>i < unat (numVertices c). vertices c' ! i = vertices c ! i"
    and "sameFrame c (c'\<lparr>primitives := primitives c, numPrims := numPrims c\<rparr>)"
proof -
  note room = cannotInsert_False_room [OF wf lim nd ok]
  from insert_tri_effect [OF wf lim nd ok, of bld] obtain c3 tri where e:
    "wellFormed c3" "sameFrame c c3" "held c3 = spec_firstUse (held c) [a, b, d]"
    "\<forall>k < 3. unat (tri ! k) < unat (numVertices c3)
                        \<and> vertices c3 ! unat (tri ! k) = [a, b, d] ! k"
    "insert_tri bld c a b d
               = (if ndebug bld \<or> fitsBlock (stored c3 tri) then Inr (stored c3 tri)
                  else Inl AssertionFailed)"
    by blast
  from e(5) res have c': "c' = stored c3 tri" by (simp split: if_splits)
  have np3: "numPrims c3 = numPrims c" and pr3: "primitives c3 = primitives c"
    using e(2) by (simp_all add: sameFrame_def)
  have l3: "length (held c3) = unat (numVertices c3)" using e(1) by (rule wellFormed_length_held)
  have l0: "length (held c) = unat (numVertices c)" using wf by (rule wellFormed_length_held)
  have nv3: "unat (numVertices c3) \<le> 256"
    using e(1) by (simp add: wellFormed_def MAX_VERTEX_COUNT_LIMIT_def)
  show "wellFormed c'" unfolding c' using e(1) by (rule wellFormed_stored)
  show "held c' = spec_firstUse (held c) [a, b, d]" unfolding c' held_stored by (rule e(3))
  show "unat (numPrims c') = unat (numPrims c) + 1"
    unfolding c' using room(3) np3 by (simp add: stored_def)
  have "unat (numVertices c3) \<le> unat (maxVertexSize c)"
    using room(1) l3 e(3) by simp
  then show "withinLimits c'"
    unfolding c' using lim e(2) room(2) room(3)
    by (simp add: withinLimits_def stored_def sameFrame_def word_le_nat_alt)
  have plen: "unat (numPrims c) < length (primitives c)"
    using wf room(2) room(5) by (simp add: wellFormed_def MAX_PRIMITIVE_COUNT_LIMIT_def)
  have row: "primitives c' ! unat (numPrims c)
             = [ucast (tri ! 0), ucast (tri ! 1), ucast (tri ! 2)]"
    unfolding c' using plen by (simp add: stored_def np3 pr3)
  have vs: "vertices c' = vertices c3" and nvs: "numVertices c' = numVertices c3"
    unfolding c' by (simp_all add: stored_def)
  show "\<forall>k < 3. unat (primitives c' ! unat (numPrims c) ! k) < unat (numVertices c')
                  \<and> vertices c' ! unat (primitives c' ! unat (numPrims c) ! k) = [a, b, d] ! k"
  proof (intro allI impI)
    fix k :: nat assume k: "k < 3"
    then have tk: "unat (tri ! k) < unat (numVertices c3)"
      and vk: "vertices c3 ! unat (tri ! k) = [a, b, d] ! k" using e(4) by simp_all
    have "unat (tri ! k) < 256" using tk nv3 by simp
    then have u: "unat (ucast (tri ! k) :: uint8_t) = unat (tri ! k)" by (rule unat_ucast_small)
    have "primitives c' ! unat (numPrims c) ! k = ucast (tri ! k)"
    proof -
      from k have "k = 0 \<or> k = 1 \<or> k = 2" by auto
      then show ?thesis unfolding row by auto
    qed
    then show "unat (primitives c' ! unat (numPrims c) ! k) < unat (numVertices c')
                  \<and> vertices c' ! unat (primitives c' ! unat (numPrims c) ! k) = [a, b, d] ! k"
      using u tk vk by (simp add: vs nvs)
  qed
  show "\<forall>p < unat (numPrims c). primitives c' ! p = primitives c ! p"
    unfolding c' by (simp add: stored_def np3 pr3)
  show "\<forall>i < unat (numVertices c). vertices c' ! i = vertices c ! i"
  proof (intro allI impI)
    fix i assume i: "i < unat (numVertices c)"
    have le: "unat (numVertices c) \<le> unat (numVertices c3)"
      using spec_firstUse_length_mono [of "held c" "[a, b, d]"] l0 l3 e(3) by simp
    have "i < length (held c)" using i l0 by simp
    then have "spec_firstUse (held c) [a, b, d] ! i = held c ! i" by (rule spec_firstUse_nth)
    then have "held c3 ! i = held c ! i" by (simp only: e(3))
    then show "vertices c' ! i = vertices c ! i"
      using i le by (simp add: held_nth vs)
  qed
  show "sameFrame c (c'\<lparr>primitives := primitives c, numPrims := numPrims c\<rparr>)"
    unfolding c' using e(2) by (simp add: sameFrame_def stored_def)
qed

lemma wellFormed_reset:
  "length (primitives c0) = MAX_PRIMITIVE_COUNT_LIMIT \<Longrightarrow> wellFormed (reset c0)"
  by (simp add: wellFormed_def reset_def held_def)

lemma withinLimits_reset:
  "maxVertexSize c0 \<le> 256 \<Longrightarrow> maxPrimitiveSize c0 \<le> 256 \<Longrightarrow> withinLimits (reset c0)"
  by (simp add: withinLimits_def reset_def)

lemma recorded_reset: "recorded (reset c0) []"
  by (simp add: recorded_def reset_def held_def)

lemma spec_firstUse_append:
  "spec_firstUse seen (xs @ ys) = spec_firstUse (spec_firstUse seen xs) ys"
  by (induction xs arbitrary: seen) simp_all

lemma checkThenInsert_step:
  assumes "checkThenInsert bld c ((a, b, d) # ts) = Some c'"
  obtains c1 where "cannotInsert c a b d = Inr False" "insert_tri bld c a b d = Inr c1"
    "checkThenInsert bld c1 ts = Some c'"
  using assms by (auto split: if_splits sum.splits)

lemma checkThenInsert_inv:
  assumes "wellFormed c" "withinLimits c" "checkThenInsert bld c ts = Some c'"
  shows "wellFormed c' \<and> withinLimits c'"
  using assms
proof (induction ts arbitrary: c)
  case Nil
  then show ?case by simp
next
  case (Cons t ts)
  obtain a b d where t: "t = (a, b, d)" by (cases t) auto
  from Cons.prems(3) [unfolded t] obtain c1 where s:
    "cannotInsert c a b d = Inr False" "insert_tri bld c a b d = Inr c1"
    "checkThenInsert bld c1 ts = Some c'" by (rule checkThenInsert_step)
  have "wellFormed c1 \<and> withinLimits c1"
  proof (cases "a = b \<or> a = d \<or> b = d")
    case True
    then have "c1 = c" using s(2) by (simp add: insert_tri_def)
    then show ?thesis using Cons.prems by simp
  next
    case False
    then have nd: "a \<noteq> b" "a \<noteq> d" "b \<noteq> d" by simp_all
    from protocol_step(1,2) [OF Cons.prems(1,2) nd s(1) s(2)] show ?thesis by simp
  qed
  then show ?case using Cons.IH s(3) by blast
qed

lemma checkThenInsert_take:
  assumes "checkThenInsert bld c ts = Some c'"
  shows "\<exists>c''. checkThenInsert bld c (take n ts) = Some c''"
  using assms
proof (induction ts arbitrary: c n)
  case Nil
  then show ?case by simp
next
  case (Cons t ts)
  obtain a b d where t: "t = (a, b, d)" by (cases t) auto
  from Cons.prems [unfolded t] obtain c1 where s:
    "cannotInsert c a b d = Inr False" "insert_tri bld c a b d = Inr c1"
    "checkThenInsert bld c1 ts = Some c'" by (rule checkThenInsert_step)
  show ?case
  proof (cases n)
    case 0
    then show ?thesis by simp
  next
    case (Suc m)
    from Cons.IH [OF s(3), of m] obtain c'' where "checkThenInsert bld c1 (take m ts) = Some c''"
      by blast
    then show ?thesis using s(1,2) Suc t by simp
  qed
qed

lemma withinLimits_bounds:
  "withinLimits c \<Longrightarrow> numVertices c \<le> maxVertexSize c \<and> numPrims c \<le> maxPrimitiveSize c"
  by (simp add: withinLimits_def)

text \<open>
  Claim C3: from a reset cache configured with \<open>maxVertexSize\<close> and \<open>maxPrimitiveSize\<close> at
  most 256, when every \<open>insert\<close> is preceded by \<open>cannotInsert\<close> returning false on the
  current state, every intermediate state and the final state have
  \<open>numVertices \<le> maxVertexSize\<close> and \<open>numPrims \<le> maxPrimitiveSize\<close>.
\<close>

theorem capacity_never_exceeded:
  assumes arr: "length (primitives c0) = MAX_PRIMITIVE_COUNT_LIMIT"
    and mv: "maxVertexSize c0 \<le> 256" and mp: "maxPrimitiveSize c0 \<le> 256"
    and run: "checkThenInsert bld (reset c0) ts = Some c"
  shows "\<forall>n. \<exists>c'. checkThenInsert bld (reset c0) (take n ts) = Some c'
                \<and> numVertices c' \<le> maxVertexSize c' \<and> numPrims c' \<le> maxPrimitiveSize c'"
proof
  fix n
  from checkThenInsert_take [OF run, of n] obtain c' where
    c': "checkThenInsert bld (reset c0) (take n ts) = Some c'" by blast
  have "wellFormed c' \<and> withinLimits c'"
    using wellFormed_reset [OF arr] withinLimits_reset [OF mv mp] c'
    by (rule checkThenInsert_inv)
  then show "\<exists>c'. checkThenInsert bld (reset c0) (take n ts) = Some c'
                \<and> numVertices c' \<le> maxVertexSize c' \<and> numPrims c' \<le> maxPrimitiveSize c'"
    using c' withinLimits_bounds by blast
qed

lemma recorded_step:
  assumes wf: "wellFormed c" and lim: "withinLimits c" and rec: "recorded c ts0"
    and nd: "a \<noteq> b" "a \<noteq> d" "b \<noteq> d"
    and ok: "cannotInsert c a b d = Inr False"
    and res: "insert_tri bld c a b d = Inr c1"
  shows "recorded c1 (ts0 @ [(a, b, d)])"
proof -
  note st = protocol_step [OF wf lim nd ok res]
  have np: "unat (numPrims c) = length ts0" using rec by (simp add: recorded_def)
  have l0: "length (held c) = unat (numVertices c)" using wf by (rule wellFormed_length_held)
  have l1: "length (held c1) = unat (numVertices c1)" using st(1) by (rule wellFormed_length_held)
  have le: "unat (numVertices c) \<le> unat (numVertices c1)"
    using spec_firstUse_length_mono [of "held c" "[a, b, d]"] l0 l1 st(3) by simp
  have h: "held c1 = spec_firstUse [] (concat (map corners (ts0 @ [(a, b, d)])))"
  proof -
    have "held c = spec_firstUse [] (concat (map corners ts0))"
      using rec by (simp add: recorded_def)
    then have "held c1 = spec_firstUse (spec_firstUse [] (concat (map corners ts0))) [a, b, d]"
      using st(3) by (simp only:)
    also have "\<dots> = spec_firstUse [] (concat (map corners ts0) @ [a, b, d])"
      by (simp only: spec_firstUse_append)
    finally show ?thesis by (simp add: corners_def)
  qed
  have pk: "\<forall>p < length (ts0 @ [(a, b, d)]). \<forall>k < 3.
           unat (primitives c1 ! p ! k) < unat (numVertices c1)
           \<and> vertices c1 ! unat (primitives c1 ! p ! k) = corners ((ts0 @ [(a, b, d)]) ! p) ! k"
  proof (intro allI impI)
    fix p k :: nat assume p: "p < length (ts0 @ [(a, b, d)])" and k: "k < 3"
    show "unat (primitives c1 ! p ! k) < unat (numVertices c1)
           \<and> vertices c1 ! unat (primitives c1 ! p ! k) = corners ((ts0 @ [(a, b, d)]) ! p) ! k"
    proof (cases "p < length ts0")
      case True
      then have old: "unat (primitives c ! p ! k) < unat (numVertices c)"
        "vertices c ! unat (primitives c ! p ! k) = corners (ts0 ! p) ! k"
        using rec k by (simp_all add: recorded_def)
      have same: "primitives c1 ! p = primitives c ! p" using st(6) True np by simp
      have "vertices c1 ! unat (primitives c ! p ! k) = vertices c ! unat (primitives c ! p ! k)"
        using st(7) old(1) by simp
      then show ?thesis using old le True by (simp add: same nth_append)
    next
      case False
      then have pe: "p = unat (numPrims c)" using p np by simp
      have "corners ((ts0 @ [(a, b, d)]) ! p) = [a, b, d]"
        using pe np by (simp add: corners_def)
      then show ?thesis using st(5) k pe by simp
    qed
  qed
  show ?thesis
    unfolding recorded_def using st(4) np h pk by simp
qed

lemma checkThenInsert_recorded:
  assumes "wellFormed c" "withinLimits c" "recorded c ts0"
    and "\<forall>t \<in> set ts. \<not> degenerate t"
    and "checkThenInsert bld c ts = Some c'"
  shows "recorded c' (ts0 @ ts)"
  using assms
proof (induction ts arbitrary: c ts0)
  case Nil
  then show ?case by simp
next
  case (Cons t ts)
  obtain a b d where t: "t = (a, b, d)" by (cases t) auto
  from Cons.prems(5) [unfolded t] obtain c1 where s:
    "cannotInsert c a b d = Inr False" "insert_tri bld c a b d = Inr c1"
    "checkThenInsert bld c1 ts = Some c'" by (rule checkThenInsert_step)
  have nd: "a \<noteq> b" "a \<noteq> d" "b \<noteq> d"
    using Cons.prems(4) t by (simp_all add: degenerate_def)
  note st = protocol_step(1,2) [OF Cons.prems(1,2) nd s(1) s(2)]
  have r1: "recorded c1 (ts0 @ [(a, b, d)])"
    using Cons.prems(1,2,3) nd s(1) s(2) by (rule recorded_step)
  have rest: "\<forall>t \<in> set ts. \<not> degenerate t" using Cons.prems(4) by simp
  from Cons.IH [OF st r1 rest s(3)] show ?case using t by simp
qed

text \<open>
  Claim C2: for a stream of non-degenerate triangles processed from a reset cache under
  the check-then-insert protocol, with \<open>maxVertexSize\<close> and \<open>maxPrimitiveSize\<close> at most
  256: every triangle of the stream is a stored primitive; every stored local index is
  less than \<open>numVertices\<close> and \<open>vertices\<close> maps it back to the original index of that
  corner; \<open>vertices[0 .. numVertices)\<close> are pairwise distinct and are the original
  indices of the stream in the order of first use.
\<close>

theorem local_indices_round_trip:
  assumes arr: "length (primitives c0) = MAX_PRIMITIVE_COUNT_LIMIT"
    and mv: "maxVertexSize c0 \<le> 256" and mp: "maxPrimitiveSize c0 \<le> 256"
    and nd: "\<forall>t \<in> set ts. \<not> degenerate t"
    and run: "checkThenInsert bld (reset c0) ts = Some c"
  shows "unat (numPrims c) = length ts
         \<and> (\<forall>p < unat (numPrims c). \<forall>k < 3.
               unat (primitives c ! p ! k) < unat (numVertices c)
               \<and> vertices c ! unat (primitives c ! p ! k) = corners (ts ! p) ! k)
         \<and> distinct (take (unat (numVertices c)) (vertices c))
         \<and> take (unat (numVertices c)) (vertices c) = spec_firstUse [] (concat (map corners ts))"
proof -
  have wf0: "wellFormed (reset c0)" using arr by (rule wellFormed_reset)
  have lim0: "withinLimits (reset c0)" using mv mp by (rule withinLimits_reset)
  have "recorded c ([] @ ts)"
    using wf0 lim0 recorded_reset nd run by (rule checkThenInsert_recorded)
  then have r: "recorded c ts" by simp
  have "wellFormed c" using checkThenInsert_inv [OF wf0 lim0 run] by simp
  then have "distinct (held c)" by (simp add: wellFormed_def)
  then show ?thesis using r by (simp add: recorded_def held_def)
qed

lemma fitsBlock_unlimited: "maxBlockBits c = - 1 \<Longrightarrow> fitsBlock c"
  by (simp add: fitsBlock_def)

lemma checkThenInsert_exists:
  assumes "wellFormed c" "withinLimits c"
    and "ndebug bld \<or> maxBlockBits c = - 1"
    and "\<forall>t \<in> set ts. \<not> degenerate t"
    and "length (spec_firstUse (held c) (concat (map corners ts))) \<le> unat (maxVertexSize c)"
    and "unat (numPrims c) + length ts \<le> unat (maxPrimitiveSize c)"
  shows "\<exists>c'. checkThenInsert bld c ts = Some c'"
  using assms
proof (induction ts arbitrary: c)
  case Nil
  then show ?case by simp
next
  case (Cons t ts)
  obtain a b d where t: "t = (a, b, d)" by (cases t) auto
  have wf: "wellFormed c" and lim: "withinLimits c" by fact+
  have nd: "a \<noteq> b" "a \<noteq> d" "b \<noteq> d"
    using Cons.prems(4) t by (simp_all add: degenerate_def)
  let ?L = "length (spec_firstUse (held c) [a, b, d])"
  have split: "spec_firstUse (held c) (concat (map corners (t # ts)))
        = spec_firstUse (spec_firstUse (held c) [a, b, d]) (concat (map corners ts))"
    unfolding t by (simp only: list.map concat.simps corners_def prod.case spec_firstUse_append)
  have L: "?L \<le> unat (maxVertexSize c)"
    using spec_firstUse_length_mono [of "spec_firstUse (held c) [a, b, d]" "concat (map corners ts)"]
      Cons.prems(5) unfolding split by simp
  have mv: "unat (maxVertexSize c) \<le> 256" and mp: "unat (maxPrimitiveSize c) \<le> 256"
    using lim by (simp_all add: withinLimits_def word_le_nat_alt)
  have uL: "unat (of_nat ?L :: uint32_t) = ?L" using L mv by (simp add: unat_of_nat)
  have a1: "\<not> of_nat ?L > maxVertexSize c" using L uL by (simp add: word_less_nat_alt)
  have "unat (numPrims c) + unat (1::uint32_t) < 2 ^ LENGTH(32)" using Cons.prems(6) mp by simp
  then have "unat (numPrims c + 1) = unat (numPrims c) + unat (1::uint32_t)"
    by (simp only: unat_add_lem [THEN iffD1])
  then have a2: "\<not> numPrims c + 1 > maxPrimitiveSize c"
    using Cons.prems(6) by (simp add: word_less_nat_alt)
  have ok: "cannotInsert c a b d = Inr False"
    unfolding cannotInsert_value [OF wf nd] using a1 a2 by simp
  from insert_tri_effect [OF wf lim nd ok, of bld] obtain c3 tri where e:
    "sameFrame c c3"
    "insert_tri bld c a b d
       = (if ndebug bld \<or> fitsBlock (stored c3 tri) then Inr (stored c3 tri)
          else Inl AssertionFailed)" by blast
  have "maxBlockBits (stored c3 tri) = maxBlockBits c"
    using e(1) by (simp add: sameFrame_def stored_def)
  then have "ndebug bld \<or> fitsBlock (stored c3 tri)"
    using Cons.prems(3) fitsBlock_unlimited by auto
  then have res: "insert_tri bld c a b d = Inr (stored c3 tri)" using e(2) by simp
  note st = protocol_step [OF wf lim nd ok res]
  have fr: "maxBlockBits (stored c3 tri) = maxBlockBits c"
    "maxVertexSize (stored c3 tri) = maxVertexSize c"
    "maxPrimitiveSize (stored c3 tri) = maxPrimitiveSize c"
    using st(8) by (simp_all add: sameFrame_def)
  have "\<exists>c'. checkThenInsert bld (stored c3 tri) ts = Some c'"
  proof (rule Cons.IH [OF st(1) st(2)])
    show "ndebug bld \<or> maxBlockBits (stored c3 tri) = - 1" using Cons.prems(3) fr by simp
    show "\<forall>t \<in> set ts. \<not> degenerate t" using Cons.prems(4) by simp
    show "length (spec_firstUse (held (stored c3 tri)) (concat (map corners ts)))
            \<le> unat (maxVertexSize (stored c3 tri))"
      using Cons.prems(5) unfolding split st(3) fr by simp
    show "unat (numPrims (stored c3 tri)) + length ts \<le> unat (maxPrimitiveSize (stored c3 tri))"
      using Cons.prems(6) st(4) fr by simp
  qed
  then show ?case using ok res t by simp
qed

lemma run0:
  "\<exists>c. checkThenInsert bld (reset example_cache) [(1, 2, 3), (3, 2, 4)] = Some c"
proof (rule checkThenInsert_exists)
  show "wellFormed (reset example_cache)"
    by (rule wellFormed_reset) (simp add: example_cache_def PrimitiveCache_init_def)
  show "withinLimits (reset example_cache)"
    by (rule withinLimits_reset) (simp_all add: example_cache_def PrimitiveCache_init_def)
  show "ndebug bld \<or> maxBlockBits (reset example_cache) = - 1"
    by (simp add: example_cache_def PrimitiveCache_init_def reset_def)
  show "\<forall>t \<in> set [(1, 2, 3), (3, 2, 4)]. \<not> degenerate (t :: triangle)"
    by (simp add: degenerate_def)
  show "length (spec_firstUse (held (reset example_cache)) (concat (map corners [(1, 2, 3), (3, 2, 4)])))
          \<le> unat (maxVertexSize (reset example_cache))"
    by (simp add: held_def reset_def corners_def example_cache_def PrimitiveCache_init_def)
  show "unat (numPrims (reset example_cache)) + length [(1, 2, 3), (3, 2, 4) :: triangle]
          \<le> unat (maxPrimitiveSize (reset example_cache))"
    by (simp add: reset_def example_cache_def PrimitiveCache_init_def)
qed

theorem capacity_never_exceeded_witness:
  "\<exists>c. checkThenInsert gnu_build (reset example_cache) [(1, 2, 3), (3, 2, 4)] = Some c
       \<and> numVertices c \<le> maxVertexSize c \<and> numPrims c \<le> maxPrimitiveSize c"
proof -
  let ?b = "gnu_build"
  from run0 [of ?b] obtain c where
    run: "checkThenInsert ?b (reset example_cache) [(1, 2, 3), (3, 2, 4)] = Some c" by blast
  have arr: "length (primitives example_cache) = MAX_PRIMITIVE_COUNT_LIMIT"
    by (simp add: example_cache_def PrimitiveCache_init_def)
  have mv: "maxVertexSize example_cache \<le> 256" and mp: "maxPrimitiveSize example_cache \<le> 256"
    by (simp_all add: example_cache_def PrimitiveCache_init_def)
  from capacity_never_exceeded [OF arr mv mp run, THEN spec, of 2]
  show ?thesis using run by simp
qed

theorem local_indices_round_trip_witness:
  "\<exists>c. checkThenInsert gnu_build (reset example_cache) [(1, 2, 3), (3, 2, 4)] = Some c
       \<and> unat (numPrims c) = 2
       \<and> vertices c ! unat (primitives c ! 1 ! 2) = 4
       \<and> take (unat (numVertices c)) (vertices c) = [1, 2, 3, 4]"
proof -
  let ?b = "gnu_build"
  from run0 [of ?b] obtain c where
    run: "checkThenInsert ?b (reset example_cache) [(1, 2, 3), (3, 2, 4)] = Some c" by blast
  have arr: "length (primitives example_cache) = MAX_PRIMITIVE_COUNT_LIMIT"
    by (simp add: example_cache_def PrimitiveCache_init_def)
  have mv: "maxVertexSize example_cache \<le> 256" and mp: "maxPrimitiveSize example_cache \<le> 256"
    by (simp_all add: example_cache_def PrimitiveCache_init_def)
  have nd: "\<forall>t \<in> set [(1, 2, 3), (3, 2, 4)]. \<not> degenerate (t :: triangle)"
    by (simp add: degenerate_def)
  from local_indices_round_trip [OF arr mv mp nd run]
  show ?thesis using run by (simp add: corners_def)
qed

section \<open>A reset cache and a fresh cache\<close>




lemma findMSB_nonzero_any_zero:
  assumes "x \<noteq> 0"
  shows "findMSB (bld\<lparr>clz_of_zero := z\<rparr>) x = findMSB bld x"
proof (cases "scanReverse 32 x")
  case None
  then have "\<forall>j < 32. \<not> bit x j" by (rule scanReverse_None)
  then have "x = 0" by (intro bit_word_eqI) simp
  then show ?thesis using assms by simp
next
  case (Some p)
  then show ?thesis by (simp add: findMSB_def builtin_clz_def)
qed

lemma findMSB_or1_any_zero:
  "findMSB (bld\<lparr>clz_of_zero := z\<rparr>) (y OR 1) = findMSB bld (y OR 1)"
proof (rule findMSB_nonzero_any_zero)
  have "bit (y OR 1) 0" by (simp add: bit_simps)
  then show "y OR 1 \<noteq> 0" by auto
qed






lemma countFound_alike: "alike full c1 c2 \<Longrightarrow> countFound c1 idxs = countFound c2 idxs"
  by (auto simp add: alike_def observe_but_allBits_def countFound_def)


lemma cmpBits_alike:
  assumes "alike full c1 c2"
  shows "cmpBits bld c1 a b d = cmpBits (bld\<lparr>clz_of_zero := z\<rparr>) c2 a b d"
proof -
  have nv: "numVertices c1 = numVertices c2"
    using assms by (simp add: alike_def observe_but_allBits_def)
  have "take (unat (numVertices c1)) (vertices c1) = take (unat (numVertices c2)) (vertices c2)"
    using assms by (auto simp add: alike_def observe_but_allBits_def)
  then have pre: "take (unat (numVertices c2)) (vertices c1)
      = take (unat (numVertices c2)) (vertices c2)"
    by (simp only: nv)
  have "numVertices c2 \<noteq> 0 \<Longrightarrow> vertices c1 ! 0 = vertices c2 ! 0"
  proof -
    assume "numVertices c2 \<noteq> 0"
    then have "0 < unat (numVertices c2)" by (simp add: unat_gt_0)
    then have "take (unat (numVertices c2)) (vertices c1) ! 0 = vertices c1 ! 0"
      "take (unat (numVertices c2)) (vertices c2) ! 0 = vertices c2 ! 0" by simp_all
    then show ?thesis using pre by simp
  qed
  then show ?thesis using nv by (simp add: cmpBits_def findMSB_or1_any_zero)
qed

lemma cannotInsertBlock_alike:
  assumes "alike full c1 c2"
  shows "cannotInsertBlock bld c1 a b d = cannotInsertBlock (bld\<lparr>clz_of_zero := z\<rparr>) c2 a b d"
  using assms countFound_alike [OF assms, of "[a, b, d]"] cmpBits_alike [OF assms, of bld a b d z]
  by (auto simp add: cannotInsertBlock_def alike_def observe_but_allBits_def Let_def)








section \<open>The bit budget after an insert\<close>

lemma of_nat_le_31: "p < 32 \<Longrightarrow> (of_nat p :: uint32_t) \<le> 31"
proof -
  assume "p < 32"
  then have "unat (of_nat p :: uint32_t) \<le> 31" by (simp add: unat_of_nat)
  then show ?thesis by (simp add: word_le_nat_alt)
qed

lemma findMSB_or1_le: "findMSB bld (y OR 1) \<le> 31"
proof -
  have "bit (y OR 1) 0" by (simp add: bit_or_iff)
  then have "scanReverse 32 (y OR 1) \<noteq> None" by (intro scanReverse_bit0) simp
  then obtain p where p: "scanReverse 32 (y OR 1) = Some p" by auto
  then have "p < 32" by (rule scanReverse_bound)
  then have a: "(of_nat p :: uint32_t) \<le> 31" by (rule of_nat_le_31)
  have b: "(of_nat (31 - p) :: uint32_t) \<le> 31" by (rule of_nat_le_31) simp
  show ?thesis
  proof (cases "msc_ver bld")
    case True
    then show ?thesis using a by (simp only: findMSB_def BitScanReverse_def p option.case if_True)
  next
    case False
    then show ?thesis using b by (simp only: findMSB_def builtin_clz_def p option.case if_False)
  qed
qed

lemma findMSB_msc_one: "msc_ver bld \<Longrightarrow> findMSB bld 1 = 0"
  by (simp add: findMSB_def BitScanReverse_def scanReverse_one)

lemma unat_succ_31: "(x::uint32_t) \<le> 31 \<Longrightarrow> unat (x + 1) = unat x + 1"
  by (rule unat_succ_small) (simp add: word_le_nat_alt)

lemma succ_le_32: "(x::uint32_t) \<le> 31 \<Longrightarrow> 1 \<le> x + 1 \<and> x + 1 \<le> 32"
  using unat_succ_31 [of x] by (simp add: word_le_nat_alt)

lemma deltaOf_pos: "1 \<le> deltaOf bld v0 x"
  unfolding deltaOf_def using succ_le_32 [OF findMSB_or1_le] by blast

lemma deltaOf_le_32: "deltaOf bld v0 x \<le> 32"
  unfolding deltaOf_def using succ_le_32 [OF findMSB_or1_le] by blast

lemma deltaOf_msc_self: "msc_ver bld \<Longrightarrow> deltaOf bld v0 v0 = 1"
  by (simp add: deltaOf_def findMSB_msc_one)

lemma succ_mono_32: "(x::uint32_t) \<le> 31 \<Longrightarrow> y \<le> 31 \<Longrightarrow> max x y + 1 = max (x + 1) (y + 1)"
  using unat_succ_31 [of x] unat_succ_31 [of y] by (simp add: max_def word_le_nat_alt)

lemma max_le_31: "(x::uint32_t) \<le> 31 \<Longrightarrow> y \<le> 31 \<Longrightarrow> max x y \<le> 31"
  by (simp add: max_def)

lemma cmpBits_max:
  "cmpBits bld c a b d
     = (let v0 = (if numVertices c \<noteq> 0 then vertices c ! 0 else a)
        in max (deltaOf bld v0 a) (max (deltaOf bld v0 b) (deltaOf bld v0 d)))"
proof -
  note le = findMSB_or1_le
  show ?thesis
    unfolding cmpBits_def deltaOf_def Let_def
    by (simp only: succ_mono_32 [OF le max_le_31 [OF le le]] succ_mono_32 [OF le le] xor.commute)
qed

lemma spec_firstUse_set: "set (spec_firstUse seen xs) = set seen \<union> set xs"
  by (induction xs arbitrary: seen) auto

lemma spec_firstUse_distinct: "distinct seen \<Longrightarrow> distinct (spec_firstUse seen xs)"
  by (induction xs arbitrary: seen) auto

lemma spec_firstUse_hd: "seen \<noteq> [] \<Longrightarrow> hd (spec_firstUse seen xs) = hd seen"
  using spec_firstUse_extends [of seen xs] by auto

lemma set_tl_distinct: "distinct q \<Longrightarrow> q \<noteq> [] \<Longrightarrow> set (tl q) = set q - {hd q}"
  by (cases q) auto

lemma widest_Nil: "widest bld [] = 0"
  by (simp add: widest_def)

lemma widest_single: "widest bld [x] = 0"
  by (simp add: widest_def)

lemma widest_snoc:
  assumes "q \<noteq> []"
  shows "widest bld (q @ [x]) = max (deltaOf bld (hd q) x) (widest bld q)"
proof -
  let ?A = "insert 0 (deltaOf bld (hd q) ` set (tl q))"
  have "insert 0 (deltaOf bld (hd (q @ [x])) ` set (tl (q @ [x])))
        = insert (deltaOf bld (hd q) x) ?A"
    using assms by auto
  then have "widest bld (q @ [x]) = Max (insert (deltaOf bld (hd q) x) ?A)"
    by (simp only: widest_def)
  also have "\<dots> = max (deltaOf bld (hd q) x) (Max ?A)"
    by (rule Max_insert) simp_all
  finally show ?thesis by (simp only: widest_def)
qed

lemma widest_ge: "x \<in> set (tl q) \<Longrightarrow> deltaOf bld (hd q) x \<le> widest bld q"
  by (simp add: widest_def)

lemma widest_le:
  "(\<And>x. x \<in> set (tl q) \<Longrightarrow> deltaOf bld (hd q) x \<le> m) \<Longrightarrow> widest bld q \<le> m"
  by (auto simp add: widest_def)

lemma widest_le_32: "widest bld q \<le> 32"
  by (rule widest_le) (rule deltaOf_le_32)

lemma firstUse3_tail:
  assumes dist: "distinct p" and nd: "a \<noteq> b" "a \<noteq> d" "b \<noteq> d"
  defines "v0 \<equiv> (if p = [] then a else hd p)"
  shows "hd (spec_firstUse p [a, b, d]) = v0"
    and "set (tl (spec_firstUse p [a, b, d])) = (set p \<union> {a, b, d}) - {v0}"
    and "set (tl p) \<subseteq> set p - {v0}"
    and "p \<noteq> [] \<Longrightarrow> set p - {v0} \<subseteq> set (tl p)"
    and "p \<noteq> [] \<Longrightarrow> hd p = v0"
proof -
  let ?q = "spec_firstUse p [a, b, d]"
  have sq: "set ?q = set p \<union> {a, b, d}" by (simp only: spec_firstUse_set) simp
  have dq: "distinct ?q" using dist by (rule spec_firstUse_distinct)
  have qne: "?q \<noteq> []" using sq by auto
  show hq: "hd ?q = v0"
  proof (cases "p = []")
    case True
    then show ?thesis using nd by (simp add: v0_def)
  next
    case False
    then show ?thesis by (simp add: v0_def spec_firstUse_hd)
  qed
  show "set (tl ?q) = (set p \<union> {a, b, d}) - {v0}"
    using set_tl_distinct [OF dq qne] hq sq by simp
  show "set (tl p) \<subseteq> set p - {v0}" "p \<noteq> [] \<Longrightarrow> set p - {v0} \<subseteq> set (tl p)"
    "p \<noteq> [] \<Longrightarrow> hd p = v0"
    using dist by (cases p; auto simp add: v0_def)+
qed

lemma widest_firstUse3_le:
  assumes dist: "distinct p" and nd: "a \<noteq> b" "a \<noteq> d" "b \<noteq> d"
  defines "v0 \<equiv> (if p = [] then a else hd p)"
  shows "widest bld (spec_firstUse p [a, b, d])
         \<le> max (max (deltaOf bld v0 a) (max (deltaOf bld v0 b) (deltaOf bld v0 d))) (widest bld p)"
proof (rule widest_le)
  let ?q = "spec_firstUse p [a, b, d]"
  let ?f = "deltaOf bld v0"
  note t = firstUse3_tail [OF dist nd, folded v0_def]
  fix x assume "x \<in> set (tl ?q)"
  then have x: "x \<in> set p \<union> {a, b, d}" "x \<noteq> v0" using t(2) by auto
  have old: "x \<in> set p \<Longrightarrow> ?f x \<le> widest bld p"
  proof -
    assume xp: "x \<in> set p"
    then have pne: "p \<noteq> []" by auto
    then have "x \<in> set (tl p)" using xp x(2) t(4) by auto
    then show "?f x \<le> widest bld p" using widest_ge [of x p bld] t(5) [OF pne] by simp
  qed
  show "deltaOf bld (hd ?q) x
          \<le> max (max (?f a) (max (?f b) (?f d))) (widest bld p)"
    unfolding t(1) using x old by (auto simp add: le_max_iff_disj)
qed

lemma widest_firstUse3:
  assumes m: "msc_ver bld" and dist: "distinct p" and nd: "a \<noteq> b" "a \<noteq> d" "b \<noteq> d"
  defines "v0 \<equiv> (if p = [] then a else hd p)"
  shows "widest bld (spec_firstUse p [a, b, d])
         = max (max (deltaOf bld v0 a) (max (deltaOf bld v0 b) (deltaOf bld v0 d))) (widest bld p)"
proof -
  let ?q = "spec_firstUse p [a, b, d]"
  let ?f = "deltaOf bld v0"
  let ?R = "max (max (?f a) (max (?f b) (?f d))) (widest bld p)"
  note t = firstUse3_tail [OF dist nd, folded v0_def]
  have le: "widest bld ?q \<le> ?R"
    unfolding v0_def using dist nd by (rule widest_firstUse3_le)
  have in_q: "\<And>x. x \<in> {a, b, d} \<Longrightarrow> x \<noteq> v0 \<Longrightarrow> ?f x \<le> widest bld ?q"
  proof -
    fix x assume "x \<in> {a, b, d}" "x \<noteq> v0"
    then have "x \<in> set (tl ?q)" using t(2) by auto
    then show "?f x \<le> widest bld ?q" using widest_ge [of x ?q bld] t(1) by simp
  qed
  have one: "1 \<le> widest bld ?q"
  proof -
    obtain y where y: "y \<in> {a, b, d}" "y \<noteq> v0" using nd by (cases "a = v0") auto
    have "1 \<le> ?f y" by (rule deltaOf_pos)
    also have "\<dots> \<le> widest bld ?q" using y by (rule in_q)
    finally show ?thesis .
  qed
  have each: "\<And>x. x \<in> {a, b, d} \<Longrightarrow> ?f x \<le> widest bld ?q"
  proof -
    fix x assume x: "x \<in> {a, b, d}"
    show "?f x \<le> widest bld ?q"
    proof (cases "x = v0")
      case True
      then show ?thesis using one deltaOf_msc_self [OF m, of v0] by simp
    next
      case False
      then show ?thesis using x in_q by blast
    qed
  qed
  have wp: "widest bld p \<le> widest bld ?q"
  proof (rule widest_le)
    fix x assume x: "x \<in> set (tl p)"
    then have pne: "p \<noteq> []" by auto
    have "x \<in> set (tl ?q)" using x t(3) t(2) by auto
    then show "deltaOf bld (hd p) x \<le> widest bld ?q"
      using widest_ge [of x ?q bld] t(1) t(5) [OF pne] by simp
  qed
  have ge: "?R \<le> widest bld ?q"
    using each [of a] each [of b] each [of d] wp by simp
  show ?thesis using le ge by (rule antisym)
qed

lemma held_empty_iff: "wellFormed c \<Longrightarrow> held c = [] \<longleftrightarrow> numVertices c = 0"
  using wellFormed_length_held [of c] by (auto simp add: unat_eq_0 simp flip: length_0_conv)

lemma hd_held: "wellFormed c \<Longrightarrow> numVertices c \<noteq> 0 \<Longrightarrow> hd (held c) = vertices c ! 0"
proof -
  assume wf: "wellFormed c" and nz: "numVertices c \<noteq> 0"
  then have ne: "held c \<noteq> []" by (simp add: held_empty_iff)
  have "0 < unat (numVertices c)" using nz by (simp add: unat_gt_0)
  then have "held c ! 0 = vertices c ! 0" by (rule held_nth)
  then show ?thesis using ne by (simp add: hd_conv_nth)
qed

lemma deltaTracked_appended:
  assumes wf: "wellFormed c" and new: "idx \<notin> set (held c)"
    and room: "unat (numVertices c) < 256" and tr: "deltaTracked bld c"
  shows "deltaTracked bld (appended_vertex bld c idx)"
proof -
  have h: "held (appended_vertex bld c idx) = held c @ [idx]"
    using wf new room by (rule insertVertex_new(2))
  show ?thesis
  proof (cases "numVertices c = 0")
    case True
    then have "held c = []" using wf by (simp add: held_empty_iff)
    then show ?thesis
      using tr True unfolding deltaTracked_def h
      by (simp add: widest_single widest_Nil appended_vertex_def)
  next
    case False
    then have ne: "held c \<noteq> []" using wf by (simp add: held_empty_iff)
    have hd: "hd (held c) = vertices c ! 0" using wf False by (rule hd_held)
    show ?thesis
      using tr False unfolding deltaTracked_def h widest_snoc [OF ne]
      by (simp add: appended_vertex_def deltaOf_def hd)
  qed
qed

lemma insertVertex_result:
  assumes wf: "wellFormed c" and res: "insertVertex bld c idx = Inr (c1, t)"
  shows "c1 = c \<or> (idx \<notin> set (held c) \<and> unat (numVertices c) < 256
                    \<and> c1 = appended_vertex bld c idx)"
proof (cases "idx \<in> set (held c)")
  case True
  from insertVertex_found [OF wf True, of bld] res show ?thesis by auto
next
  case False
  show ?thesis
  proof (cases "unat (numVertices c) < 256")
    case True
    from insertVertex_new(1) [OF wf False True, of bld] res False True show ?thesis by simp
  next
    case full: False
    then have "unat (numVertices c) = 256"
      using wf by (simp add: wellFormed_def MAX_VERTEX_COUNT_LIMIT_def)
    from insertVertex_full [OF wf False this, of bld] res show ?thesis by simp
  qed
qed

lemma insertVertex_tracked:
  assumes wf: "wellFormed c" and tr: "deltaTracked bld c"
    and res: "insertVertex bld c idx = Inr (c1, t)"
  shows "wellFormed c1 \<and> deltaTracked bld c1"
  using insertVertex_result [OF wf res]
proof
  assume "c1 = c"
  then show ?thesis using wf tr by simp
next
  assume a: "idx \<notin> set (held c) \<and> unat (numVertices c) < 256 \<and> c1 = appended_vertex bld c idx"
  then have new: "idx \<notin> set (held c)" and room: "unat (numVertices c) < 256"
    and c1: "c1 = appended_vertex bld c idx" by simp_all
  show ?thesis
    unfolding c1 using insertVertex_new(4) [OF wf new room] deltaTracked_appended [OF wf new room tr]
    by simp
qed

lemma insertLoop_tracked:
  assumes "wellFormed c" "deltaTracked bld c" "insertLoop bld c idxs = Inr (c', tri)"
  shows "deltaTracked bld c'"
  using assms
proof (induction idxs arbitrary: c tri)
  case Nil
  then show ?case by simp
next
  case (Cons idx rest)
  from Cons.prems(3) obtain c1 t tri' where s: "insertVertex bld c idx = Inr (c1, t)"
    "insertLoop bld c1 rest = Inr (c', tri')"
    by (auto split: sum.splits prod.splits)
  from insertVertex_tracked [OF Cons.prems(1,2) s(1)] have "wellFormed c1" "deltaTracked bld c1"
    by simp_all
  then show ?case using s(2) by (rule Cons.IH)
qed

lemma deltaTracked_stored: "deltaTracked bld (stored c tri) = deltaTracked bld c"
  by (simp add: deltaTracked_def held_stored) (simp add: stored_def)

lemma insert_tri_tracked:
  assumes wf: "wellFormed c" and tr: "deltaTracked bld c"
    and res: "insert_tri bld c a b d = Inr c'"
  shows "deltaTracked bld c'"
proof (cases "a = b \<or> a = d \<or> b = d")
  case True
  then show ?thesis using res tr by (simp add: insert_tri_def)
next
  case False
  from res False obtain c3 tri where s: "insertLoop bld c [a, b, d] = Inr (c3, tri)"
    "c' = stored c3 tri"
    by (auto simp add: insert_tri_def stored_def Let_def split: sum.splits prod.splits if_splits)
  have "deltaTracked bld c3" using wf tr s(1) by (rule insertLoop_tracked)
  then show ?thesis unfolding s(2) by (simp add: deltaTracked_stored)
qed

lemma deltaTracked_reset: "deltaTracked bld (reset c0)"
  by (simp add: deltaTracked_def held_def reset_def widest_Nil)

lemma checkThenInsert_tracked:
  assumes "wellFormed c" "withinLimits c" "deltaTracked bld c"
    and "checkThenInsert bld c ts = Some c'"
  shows "deltaTracked bld c'"
  using assms
proof (induction ts arbitrary: c)
  case Nil
  then show ?case by simp
next
  case (Cons t ts)
  obtain a b d where t: "t = (a, b, d)" by (cases t) auto
  from Cons.prems(4) [unfolded t] obtain c1 where s:
    "cannotInsert c a b d = Inr False" "insert_tri bld c a b d = Inr c1"
    "checkThenInsert bld c1 ts = Some c'" by (rule checkThenInsert_step)
  have one: "checkThenInsert bld c [(a, b, d)] = Some c1" using s(1,2) by simp
  have inv1: "wellFormed c1 \<and> withinLimits c1"
    using Cons.prems(1,2) one by (rule checkThenInsert_inv)
  have "deltaTracked bld c1" using Cons.prems(1,3) s(2) by (rule insert_tri_tracked)
  then show ?case using inv1 s(3) Cons.IH by blast
qed

lemma cannotInsertBlock_cannotInsert:
  "cannotInsertBlock bld c a b d = Inr False \<Longrightarrow> cannotInsert c a b d = Inr False"
  by (auto simp add: cannotInsertBlock_def cannotInsert_def Let_def split: if_splits)

lemma unat_mult_exact:
  fixes x y :: uint32_t
  shows "unat x * unat y < 2 ^ 32 \<Longrightarrow> unat (x * y) = unat x * unat y"
  using unat_mult_lem [of x y] by simp

lemma unat_add_exact:
  fixes x y :: uint32_t
  shows "unat x + unat y < 2 ^ 32 \<Longrightarrow> unat (x + y) = unat x + unat y"
  using unat_add_lem [of x y] by simp

lemma budget_mono:
  fixes V D D' N P M :: uint32_t
  assumes V: "unat V \<le> 255" and D: "D \<le> 32" and D': "D' \<le> D"
    and N: "unat N \<le> 255" and P: "P \<le> 0x400000"
    and chk: "V * D + N * 3 * P \<le> M"
  shows "N * 3 * P + V * D' \<le> M"
proof -
  define x where "x = unat V * unat D"
  define x' where "x' = unat V * unat D'"
  define q where "q = unat N * 3 * unat P"
  have d: "unat D \<le> 32" and d': "unat D' \<le> unat D" and p: "unat P \<le> 4194304"
    using D D' P by (simp_all add: word_le_nat_alt)
  have "unat V * unat D \<le> 255 * 32" using V d by (rule mult_le_mono)
  then have x_le: "x \<le> 8160" by (simp add: x_def)
  have x'_le: "x' \<le> x" unfolding x_def x'_def using d' by (rule mult_le_mono2)
  have "unat N * 3 * unat P \<le> 765 * 4194304"
    using N p by (intro mult_le_mono) simp_all
  then have q_le: "q \<le> 3208642560" by (simp add: q_def)
  have "x < 2 ^ 32" using x_le by simp
  then have vd: "unat (V * D) = x" unfolding x_def by (rule unat_mult_exact)
  have "x' < 2 ^ 32" using x'_le x_le by simp
  then have vd': "unat (V * D') = x'" unfolding x'_def by (rule unat_mult_exact)
  have "unat N * unat (3::uint32_t) < 2 ^ 32" using N by simp
  then have "unat (N * 3) = unat N * unat (3::uint32_t)" by (rule unat_mult_exact)
  then have n3: "unat (N * 3) = unat N * 3" by simp
  have "unat (N * 3) * unat P < 2 ^ 32" unfolding n3 using q_le by (simp add: q_def)
  then have "unat (N * 3 * P) = unat (N * 3) * unat P" by (rule unat_mult_exact)
  then have qe: "unat (N * 3 * P) = q" by (simp add: n3 q_def)
  have "unat (V * D) + unat (N * 3 * P) < 2 ^ 32" unfolding vd qe using x_le q_le by simp
  then have s1: "unat (V * D + N * 3 * P) = x + q" unfolding vd [symmetric] qe [symmetric]
    by (rule unat_add_exact)
  have "unat (N * 3 * P) + unat (V * D') < 2 ^ 32" unfolding vd' qe using x'_le x_le q_le by simp
  then have s2: "unat (N * 3 * P + V * D') = q + x'" unfolding vd' [symmetric] qe [symmetric]
    by (rule unat_add_exact)
  show ?thesis
    using chk x'_le unfolding word_le_nat_alt s1 s2 by simp
qed

lemma insert_tri_fits:
  assumes wf: "wellFormed c" and lim: "withinLimits c" and tr: "deltaTracked bld c"
    and m: "msc_ver bld \<or> primitiveBits c \<le> 0x400000"
    and nd: "a \<noteq> b" "a \<noteq> d" "b \<noteq> d"
    and ok: "cannotInsertBlock bld c a b d = Inr False"
  shows "\<exists>c'. insert_tri bld c a b d = Inr c' \<and> fitsBlock c'"
proof -
  have ok1: "cannotInsert c a b d = Inr False" using ok by (rule cannotInsertBlock_cannotInsert)
  note room = cannotInsert_False_room [OF wf lim nd ok1]
  from insert_tri_effect [OF wf lim nd ok1, of bld] obtain c3 tri where e:
    "insertLoop bld c [a, b, d] = Inr (c3, tri)" "wellFormed c3" "sameFrame c c3"
    "held c3 = spec_firstUse (held c) [a, b, d]"
    "insert_tri bld c a b d
       = (if ndebug bld \<or> fitsBlock (stored c3 tri) then Inr (stored c3 tri)
          else Inl AssertionFailed)" by blast
  have dist: "distinct (held c)" and len: "length (held c) = unat (numVertices c)"
    and lv: "\<not> length (vertices c) < unat (numVertices c)"
    using wf by (simp_all add: wellFormed_def held_def)
  have tr3: "deltaTracked bld c3" using wf tr e(1) by (rule insertLoop_tracked)
  have l3: "length (held c3) = unat (numVertices c3)" using e(2) by (rule wellFormed_length_held)
  have "numVertices c + 3 - countFound c [a, b, d]
        = of_nat (length (spec_firstUse (held c) [a, b, d]))"
    unfolding countFound_def held_def [symmetric] by (rule newVertices_word [OF nd dist len])
  also have "\<dots> = numVertices c3" unfolding e(4) [symmetric] l3 by simp
  finally have nv3: "numVertices c + 3 - countFound c [a, b, d] = numVertices c3" .
  have v0: "(if held c = [] then a else hd (held c))
            = (if numVertices c \<noteq> 0 then vertices c ! 0 else a)"
    using held_empty_iff [OF wf] hd_held [OF wf] by auto
  let ?D = "max (cmpBits bld c a b d) (numVertexDeltaBits c)"
  have d3: "numVertexDeltaBits c3 = widest bld (spec_firstUse (held c) [a, b, d])"
    using tr3 by (simp add: deltaTracked_def e(4))
  have d0: "numVertexDeltaBits c = widest bld (held c)"
    using tr by (simp add: deltaTracked_def)
  have fr: "numPrims c3 = numPrims c" "primitiveBits c3 = primitiveBits c"
    "maxBlockBits c3 = maxBlockBits c"
    using e(3) by (simp_all add: sameFrame_def)
  have chk: "(numVertices c3 - 1) * ?D + (numPrims c + 1 - 1) * 3 * primitiveBits c
               \<le> maxBlockBits c"
    using ok nd lv unfolding nv3 [symmetric]
    by (simp add: cannotInsertBlock_def Let_def not_less)
  have "fitsBlock (stored c3 tri)"
    using m
  proof
    assume msc: "msc_ver bld"
    have "numVertexDeltaBits c3 = ?D"
      unfolding d3 d0 widest_firstUse3 [OF msc dist nd] cmpBits_max Let_def v0 by (rule refl)
    then show ?thesis
      using chk by (simp add: fitsBlock_def stored_def fr add.commute)
  next
    assume pb: "primitiveBits c \<le> 0x400000"
    have le: "numVertexDeltaBits c3 \<le> ?D"
      unfolding d3 d0 cmpBits_max Let_def v0 [symmetric]
      using dist nd by (rule widest_firstUse3_le)
    have "cmpBits bld c a b d \<le> 32"
      unfolding cmpBits_max Let_def by (simp add: deltaOf_le_32)
    then have D32: "?D \<le> 32" unfolding d0 by (simp add: widest_le_32)
    have "a \<in> set (held c3)" unfolding e(4) spec_firstUse_set by simp
    then have "0 < length (held c3)" by (cases "held c3") auto
    then have pos: "0 < unat (numVertices c3)" using l3 by simp
    then have "1 \<le> numVertices c3" by (simp add: word_le_nat_alt)
    then have "unat (numVertices c3 - 1) = unat (numVertices c3) - 1"
      by (simp add: unat_sub)
    moreover have "unat (numVertices c3) \<le> 256"
      using e(2) by (simp add: wellFormed_def MAX_VERTEX_COUNT_LIMIT_def)
    ultimately have V: "unat (numVertices c3 - 1) \<le> 255" by simp
    have N: "unat (numPrims c) \<le> 255" using room(2) room(5) by simp
    have chk': "(numVertices c3 - 1) * ?D + numPrims c * 3 * primitiveBits c \<le> maxBlockBits c"
      using chk by simp
    have "numPrims c * 3 * primitiveBits c + (numVertices c3 - 1) * numVertexDeltaBits c3
            \<le> maxBlockBits c"
      using V D32 le N pb chk' by (rule budget_mono)
    then show ?thesis by (simp add: fitsBlock_def stored_def fr)
  qed
  then show ?thesis using e(5) by simp
qed

text \<open>
  Claim C4 as it stands (for every state reachable under the protocol, the empty cache
  included, \<open>cannotInsertBlock\<close> returning false implies that \<open>fitsBlock\<close> holds after
  \<open>insert\<close>) fails for a degenerate triangle: on a reset cache with 8 bits per primitive
  index and a budget of 1024 bits, \<open>cannotInsertBlock(5, 5, 9)\<close> is false, \<open>insert\<close> returns
  the cache as it is without reaching the \<open>assert\<close>, and \<open>fitsBlock\<close> is false there,
  since \<open>(numPrims - 1) * 3 * primitiveBits\<close> wraps around for \<open>numPrims = 0\<close>.
\<close>

theorem fitsBlock_fails_after_degenerate:
  "cannotInsertBlock msc_build
       (reset (configure PrimitiveCache_init 64 126 8 1024)) 5 5 9 = Inr False
   \<and> insert_tri msc_build
       (reset (configure PrimitiveCache_init 64 126 8 1024)) 5 5 9
      = Inr (reset (configure PrimitiveCache_init 64 126 8 1024))
   \<and> \<not> fitsBlock (reset (configure PrimitiveCache_init 64 126 8 1024))"
  by (simp add: cannotInsertBlock_def insert_tri_def fitsBlock_def reset_def configure_def
      PrimitiveCache_init_def)

text \<open>
  Claim C4, amended: for every state reached from a reset cache under the check-then-insert
  protocol with \<open>maxVertexSize\<close> and \<open>maxPrimitiveSize\<close> at most 256, and every
  non-degenerate triangle, when \<open>cannotInsertBlock\<close> returns false, \<open>insert\<close> returns
  normally and \<open>fitsBlock\<close> holds afterwards, so the \<open>assert\<close> does not fail; this for
  the body of \<open>findMSB\<close> selected by \<open>_MSC_VER\<close> with any \<open>primitiveBits\<close>, and for the
  other body with \<open>primitiveBits\<close> at most \<open>2 ^ 22\<close>, where no sum of the budget wraps
  around.
\<close>

theorem insert_keeps_block_budget:
  assumes arr: "length (primitives c0) = MAX_PRIMITIVE_COUNT_LIMIT"
    and mv: "maxVertexSize c0 \<le> 256" and mp: "maxPrimitiveSize c0 \<le> 256"
    and run: "checkThenInsert bld (reset c0) ts = Some c"
    and m: "msc_ver bld \<or> primitiveBits c \<le> 0x400000"
    and nd: "a \<noteq> b" "a \<noteq> d" "b \<noteq> d"
    and ok: "cannotInsertBlock bld c a b d = Inr False"
  shows "\<exists>c'. insert_tri bld c a b d = Inr c' \<and> fitsBlock c'"
proof -
  have wf0: "wellFormed (reset c0)" using arr by (rule wellFormed_reset)
  have lim0: "withinLimits (reset c0)" using mv mp by (rule withinLimits_reset)
  have inv: "wellFormed c \<and> withinLimits c" using wf0 lim0 run by (rule checkThenInsert_inv)
  have tr: "deltaTracked bld c"
    using wf0 lim0 deltaTracked_reset run by (rule checkThenInsert_tracked)
  show ?thesis using inv tr m nd ok insert_tri_fits by blast
qed

lemma example_block_run:
  "(case checkThenInsert gnu_build
              (reset (configure PrimitiveCache_init 64 126 8 1024)) [(1, 2, 3)] of
         None \<Rightarrow> False
       | Some c1 \<Rightarrow>
           primitiveBits c1 = 8
           \<and> cannotInsertBlock gnu_build c1 1 4 5 = Inr False)"
  by code_simp

theorem insert_keeps_block_budget_witness:
  "\<exists>c1 c2. checkThenInsert gnu_build
              (reset (configure PrimitiveCache_init 64 126 8 1024)) [(1, 2, 3)] = Some c1
           \<and> cannotInsertBlock gnu_build c1 1 4 5 = Inr False
           \<and> insert_tri gnu_build c1 1 4 5 = Inr c2
           \<and> fitsBlock c2"
proof -
  let ?b = "gnu_build"
  let ?c0 = "configure PrimitiveCache_init 64 126 8 1024"
  from example_block_run obtain c1 where
    run: "checkThenInsert ?b (reset ?c0) [(1, 2, 3)] = Some c1"
    and pb: "primitiveBits c1 = 8"
    and ok: "cannotInsertBlock ?b c1 1 4 5 = Inr False"
    by (auto split: option.splits)
  have arr: "length (primitives ?c0) = MAX_PRIMITIVE_COUNT_LIMIT"
    by (simp add: configure_def PrimitiveCache_init_def)
  have mv: "maxVertexSize ?c0 \<le> 256" and mp: "maxPrimitiveSize ?c0 \<le> 256"
    by (simp_all add: configure_def)
  have m: "msc_ver ?b \<or> primitiveBits c1 \<le> 0x400000" using pb by simp
  have nd: "(1::uint32_t) \<noteq> 4" "(1::uint32_t) \<noteq> 5" "(4::uint32_t) \<noteq> 5" by simp_all
  from insert_keeps_block_budget [OF arr mv mp run m nd ok]
  show ?thesis using run ok by blast
qed

text \<open>
  Without \<open>_MSC_VER\<close> the bound on \<open>primitiveBits\<close> cannot be dropped: \<open>findMSB\<close> then
  counts leading zeros, \<open>cannotInsertBlock\<close> prices a triangle that holds the first vertex
  at 32 bits per vertex while \<open>insert\<close> arrives at 31, and with
  \<open>primitiveBits = 2863311488\<close> the first sum wraps around to 0 and the second does not.
  Both checks below return false and the \<open>assert\<close> of the second \<open>insert\<close> fails.
\<close>

lemma assert_fails_when_findMSB_counts_leading_zeros:
  "(case checkThenInsert gnu_build
              (reset (configure PrimitiveCache_init 64 126 2863311488 64)) [(1, 2, 3)] of
         None \<Rightarrow> False
       | Some c1 \<Rightarrow>
           cannotInsertBlock gnu_build
              (reset (configure PrimitiveCache_init 64 126 2863311488 64)) 1 2 3 = Inr False
           \<and> cannotInsertBlock gnu_build c1 1 4 5 = Inr False
           \<and> (case insert_tri gnu_build c1 1 4 5 of
                 Inl e \<Rightarrow> e = AssertionFailed | Inr c2 \<Rightarrow> False))"
  by code_simp

end
